theory Spec2Isabelle
  imports Complex_Main
begin

section \<open>Circuit breaker (shared/circuit\_breaker.py)\<close>

text \<open>
  The breaker object is a record of its configuration and its four mutable fields.
  Counters are Python integers, hence \<open>int\<close>. Clock readings of
  \<open>time.monotonic()\<close> and the recovery timeout are taken as real numbers;
  \<open>_opened_at\<close> is \<open>float | None\<close>, hence an option.

  The \<open>asyncio.Lock\<close> delimits three atomic sections: the admission check at the
  head of \<open>call\<close>, \<open>_on_failure\<close> and \<open>_on_success\<close>. Each is a function
  on the breaker. The wrapped operation runs between them, outside the lock; it is a
  function on an outside world \<open>'w\<close> that returns either the exception it raised or
  its result. \<open>call\<close> below is one caller running the three parts back to back.
  Logger calls change no field of the breaker and are left out.
\<close>

datatype CircuitState = CLOSED | OPEN | HALF_OPEN

record CircuitBreaker =
  name :: string
  failure_threshold :: int
  recovery_timeout :: real
  success_threshold :: int
  state :: CircuitState
  failure_count :: int
  success_count :: int
  opened_at :: "real option"

text \<open>\<open>CircuitBreaker.__init__\<close>\<close>

definition init :: "string \<Rightarrow> int \<Rightarrow> real \<Rightarrow> int \<Rightarrow> CircuitBreaker" where
  "init n ft rt st =
     \<lparr> name = n, failure_threshold = ft, recovery_timeout = rt, success_threshold = st,
       state = CLOSED, failure_count = 0, success_count = 0, opened_at = None \<rparr>"

text \<open>
  What a call gives back to its caller: \<open>CircuitBreakerError\<close> raised by the breaker
  itself, the wrapped operation's own exception re-raised, or its result.
\<close>

datatype 'e call_error = CircuitBreakerError | Raised 'e

text \<open>
  The locked head of \<open>call\<close>, with \<open>now\<close> the value of \<open>time.monotonic()\<close>
  there. \<open>None\<close> is the raise of \<open>CircuitBreakerError\<close>; \<open>Some b'\<close> lets the
  caller through with the breaker as it then is. \<open>self._opened_at or 0\<close> reads
  \<open>None\<close> (and \<open>0.0\<close>) as 0.
\<close>

definition admit :: "CircuitBreaker \<Rightarrow> real \<Rightarrow> CircuitBreaker option" where
  "admit b now =
     (if state b = OPEN then
        (let elapsed = now - (case opened_at b of None \<Rightarrow> 0 | Some t \<Rightarrow> t)
         in if elapsed < recovery_timeout b then None
            else Some (b\<lparr> state := HALF_OPEN, success_count := 0 \<rparr>))
      else Some b)"

text \<open>\<open>_on_failure\<close>, with \<open>now\<close> the clock reading taken if the breaker opens.\<close>

definition on_failure :: "CircuitBreaker \<Rightarrow> real \<Rightarrow> CircuitBreaker" where
  "on_failure b now =
     (let b1 = b\<lparr> failure_count := failure_count b + 1, success_count := 0 \<rparr>
      in if (state b1 = CLOSED \<or> state b1 = HALF_OPEN)
            \<and> failure_count b1 \<ge> failure_threshold b1
         then b1\<lparr> state := OPEN, opened_at := Some now \<rparr>
         else b1)"

text \<open>\<open>_on_success\<close>\<close>

definition on_success :: "CircuitBreaker \<Rightarrow> CircuitBreaker" where
  "on_success b =
     (let b1 = b\<lparr> failure_count := 0 \<rparr>
      in if state b1 = HALF_OPEN then
           (let b2 = b1\<lparr> success_count := success_count b1 + 1 \<rparr>
            in if success_count b2 \<ge> success_threshold b2
               then b2\<lparr> state := CLOSED \<rparr>
               else b2)
         else b1)"

text \<open>
  \<open>call\<close>: \<open>t_admit\<close> is the clock at the admission check, \<open>t_fail\<close> the clock
  when a failure is recorded. The result is what the caller gets, the breaker and the
  world afterwards. On rejection the operation is not applied: the world comes back as
  it went in.
\<close>

definition call ::
  "CircuitBreaker \<Rightarrow> real \<Rightarrow> ('w \<Rightarrow> ('e + 'a) \<times> 'w) \<Rightarrow> real \<Rightarrow> 'w
     \<Rightarrow> ('e call_error + 'a) \<times> CircuitBreaker \<times> 'w" where
  "call b t_admit func t_fail w =
     (case admit b t_admit of
        None \<Rightarrow> (Inl CircuitBreakerError, b, w)
      | Some b1 \<Rightarrow>
          (case func w of
             (Inl exc, w') \<Rightarrow> (Inl (Raised exc), on_failure b1 t_fail, w')
           | (Inr result, w') \<Rightarrow> (Inr result, on_success b1, w')))"

text \<open>\<open>get_stats\<close>: the snapshot dictionary, as a record of its four entries.\<close>

record stats =
  stats_name :: string
  stats_state :: CircuitState
  stats_failure_count :: int
  stats_success_count :: int

definition get_stats :: "CircuitBreaker \<Rightarrow> stats" where
  "get_stats b =
     \<lparr> stats_name = name b, stats_state = state b,
       stats_failure_count = failure_count b, stats_success_count = success_count b \<rparr>"

section \<open>Saga coordinator (services/orders/app/saga.py)\<close>

text \<open>
  \<open>SagaStep\<close> and \<open>SagaStatus\<close> are string enumerations. \<open>advance_saga\<close> takes
  its step as a plain \<open>str\<close> and compares it with the members of \<open>SagaStep\<close>, which
  are equal to (and hash as) their string values, so a step name is a string here and
  the three members are the three string constants. The status is only ever assigned
  from \<open>SagaStatus\<close>, so it is a datatype.
\<close>

abbreviation RESERVE_INVENTORY :: string where "RESERVE_INVENTORY \<equiv> ''reserve_inventory''"
abbreviation CHARGE_PAYMENT :: string where "CHARGE_PAYMENT \<equiv> ''charge_payment''"
abbreviation CONFIRM_ORDER :: string where "CONFIRM_ORDER \<equiv> ''confirm_order''"

datatype SagaStatus = PENDING | RUNNING | COMPLETED | FAILED | COMPENSATING | COMPENSATED

text \<open>
  Dictionaries built by this module have string keys and values that are strings,
  integers or the list of order items, whose element type \<open>'i\<close> is left open.
  A dictionary is an association list in insertion order.
\<close>

datatype 'i pyvalue = PyStr string | PyInt int | PyList "'i list"

type_synonym 'i pydict = "(string \<times> 'i pyvalue) list"

record 'i step_record =
  step :: string
  success :: bool
  payload :: "'i pydict"

record 'i saga =
  saga_id :: string
  order_id :: string
  user_id :: int
  items :: "'i list"
  status :: SagaStatus
  steps :: "'i step_record list"
  compensations :: "'i pydict list"

text \<open>\<open>_saga_store\<close>: the module-level dictionary from saga id to saga.\<close>

type_synonym 'i saga_store = "string \<rightharpoonup> 'i saga"

text \<open>
  \<open>create_saga\<close>. The identifier comes from \<open>uuid.uuid4()\<close>; it is an argument
  here. The assignment into the store overwrites whatever was under that key.
\<close>

definition create_saga ::
  "'i saga_store \<Rightarrow> string \<Rightarrow> string \<Rightarrow> int \<Rightarrow> 'i list \<Rightarrow> string \<times> 'i saga_store" where
  "create_saga store new_id oid uid its =
     (new_id,
      store(new_id \<mapsto>
        \<lparr> saga_id = new_id, order_id = oid, user_id = uid, items = its,
          status = PENDING, steps = [], compensations = [] \<rparr>))"

text \<open>
  The message transport behind \<open>_publish\<close> (connect, open a channel, declare the
  exchange, serialise, publish) is outside this module. It is a parameter: given the
  routing key, the payload and the outside world it returns \<open>Some e\<close> when any of
  that raised an exception \<open>e\<close>, \<open>None\<close> when the message went out, and the world
  afterwards.
\<close>

type_synonym ('i, 'w) transport = "string \<Rightarrow> 'i pydict \<Rightarrow> 'w \<Rightarrow> string option \<times> 'w"

text \<open>
  \<open>_publish\<close>. Its whole body is inside \<open>try ... except Exception\<close>, whose handler
  logs a warning and falls through: both outcomes of the transport are a normal
  return. The result type keeps a place (\<open>Inl\<close>) for an exception leaving
  \<open>_publish\<close>, which the caller's own handler is written for.
\<close>

definition publish ::
  "('i, 'w) transport \<Rightarrow> string \<Rightarrow> 'i pydict \<Rightarrow> 'w \<Rightarrow> (string + unit) \<times> 'w" where
  "publish tr routing_key pl w =
     (case tr routing_key pl w of
        (None, w') \<Rightarrow> (Inr (), w')
      | (Some e, w') \<Rightarrow> (Inr (), w'))"

text \<open>
  The body of the \<open>for\<close> loop of \<open>_compensate\<close> for one step name: the
  \<open>if/elif\<close> inside \<open>try\<close>, and the \<open>except Exception\<close> branch, which logs and
  goes on to the next step.
\<close>

definition compensate_step :: "('i, 'w) transport \<Rightarrow> 'i saga \<Rightarrow> string \<Rightarrow> 'w \<Rightarrow> 'w" where
  "compensate_step tr sg s w =
     (if s = RESERVE_INVENTORY then
        (case publish tr ''inventory.release''
                [(''order_id'', PyStr (order_id sg)), (''items'', PyList (items sg))] w of
           (Inr u, w') \<Rightarrow> w'
         | (Inl e, w') \<Rightarrow> w')
      else if s = CHARGE_PAYMENT then
        (case publish tr ''payment.refund''
                [(''order_id'', PyStr (order_id sg)), (''user_id'', PyInt (user_id sg))] w of
           (Inr u, w') \<Rightarrow> w'
         | (Inl e, w') \<Rightarrow> w')
      else w)"

fun compensate_loop :: "('i, 'w) transport \<Rightarrow> 'i saga \<Rightarrow> string list \<Rightarrow> 'w \<Rightarrow> 'w" where
  "compensate_loop tr sg [] w = w"
| "compensate_loop tr sg (s # ss) w = compensate_loop tr sg ss (compensate_step tr sg s w)"

text \<open>\<open>_compensate\<close>\<close>

definition compensate :: "('i, 'w) transport \<Rightarrow> 'i saga \<Rightarrow> 'w \<Rightarrow> 'i saga \<times> 'w" where
  "compensate tr sg w =
     (let completed_steps = map step (filter success (steps sg));
          w' = compensate_loop tr sg (rev completed_steps) w
      in (sg\<lparr> status := COMPENSATED \<rparr>, w'))"

text \<open>
  \<open>advance_saga\<close>. The saga dictionary is mutated in place; here the updated saga is
  stored back under its key. A stored saga always has its seven keys, so \<open>not saga\<close>
  holds only when the lookup gave \<open>None\<close>. \<open>payload or {}\<close> turns \<open>None\<close>
  into the empty dictionary.
\<close>

definition advance_saga ::
  "('i, 'w) transport \<Rightarrow> 'i saga_store \<Rightarrow> string \<Rightarrow> string \<Rightarrow> bool \<Rightarrow> 'i pydict option \<Rightarrow> 'w
     \<Rightarrow> 'i saga_store \<times> 'w" where
  "advance_saga tr store sid st ok pl w =
     (case store sid of
        None \<Rightarrow> (store, w)
      | Some sg \<Rightarrow>
          (let sg1 = sg\<lparr> steps := steps sg @
                       [\<lparr> step = st, success = ok,
                          payload = (case pl of None \<Rightarrow> [] | Some p \<Rightarrow> p) \<rparr>] \<rparr>
           in if \<not> ok then
                (let sg2 = sg1\<lparr> status := COMPENSATING \<rparr>;
                     (sg3, w') = compensate tr sg2 w
                 in (store(sid \<mapsto> sg3), w'))
              else
                (let completed_steps = set (map step (filter success (steps sg1)));
                     all_steps = {RESERVE_INVENTORY, CHARGE_PAYMENT, CONFIRM_ORDER}
                 in if all_steps \<subseteq> completed_steps
                    then (store(sid \<mapsto> sg1\<lparr> status := COMPLETED \<rparr>), w)
                    else (store(sid \<mapsto> sg1\<lparr> status := RUNNING \<rparr>), w))))"

text \<open>\<open>get_saga\<close>\<close>

definition get_saga :: "'i saga_store \<Rightarrow> string \<Rightarrow> 'i saga option" where
  "get_saga store sid = store sid"

subsection \<open>A recording event bus\<close>

text \<open>
  A stand-in for the message broker, used to observe what the coordinator publishes:
  the world is the list of publishes attempted and the list of those that went out.
  Whether an attempt fails is decided by \<open>fails\<close>, from the routing key, the payload
  and the bus as it is.
\<close>

record 'i bus =
  attempted :: "(string \<times> 'i pydict) list"
  delivered :: "(string \<times> 'i pydict) list"

definition bus_transport ::
  "(string \<Rightarrow> 'i pydict \<Rightarrow> 'i bus \<Rightarrow> string option) \<Rightarrow> ('i, 'i bus) transport" where
  "bus_transport fails routing_key pl w =
     (case fails routing_key pl w of
        Some e \<Rightarrow> (Some e, w\<lparr> attempted := attempted w @ [(routing_key, pl)] \<rparr>)
      | None \<Rightarrow> (None, w\<lparr> attempted := attempted w @ [(routing_key, pl)],
                            delivered := delivered w @ [(routing_key, pl)] \<rparr>))"

definition empty_bus :: "'i bus" where
  "empty_bus = \<lparr> attempted = [], delivered = [] \<rparr>"

text \<open>A bus on which every publish goes out, and one on which every publish raises.\<close>

definition never_fails :: "string \<Rightarrow> 'i pydict \<Rightarrow> 'i bus \<Rightarrow> string option" where
  "never_fails routing_key pl w = None"

definition always_fails :: "string \<Rightarrow> 'i pydict \<Rightarrow> 'i bus \<Rightarrow> string option" where
  "always_fails routing_key pl w = Some ''connection refused''"

section \<open>Callers\<close>

text \<open>
  One caller using a breaker for a series of calls, each finished before the next
  begins. A call is given as the clock at its admission check, the wrapped operation
  and the clock at which a failure would be recorded. The results come back in order.
\<close>

type_synonym ('e, 'a, 'w) call_input = "real \<times> ('w \<Rightarrow> ('e + 'a) \<times> 'w) \<times> real"

fun run_calls ::
  "CircuitBreaker \<Rightarrow> ('e, 'a, 'w) call_input list \<Rightarrow> 'w
     \<Rightarrow> ('e call_error + 'a) list \<times> CircuitBreaker \<times> 'w" where
  "run_calls b [] w = ([], b, w)"
| "run_calls b ((t_admit, func, t_fail) # cs) w =
     (case call b t_admit func t_fail w of
        (r, b1, w1) \<Rightarrow>
          (case run_calls b1 cs w1 of (rs, b2, w2) \<Rightarrow> (r # rs, b2, w2)))"

text \<open>
  Two wrapped operations over a world that counts how often an operation ran: one
  always raises, one always returns.
\<close>

definition failing_op :: "nat \<Rightarrow> (string + unit) \<times> nat" where
  "failing_op n = (Inl ''down'', Suc n)"

definition working_op :: "nat \<Rightarrow> (string + unit) \<times> nat" where
  "working_op n = (Inr (), Suc n)"

text \<open>A series of \<open>advance_saga\<close> calls, each given as saga id, step, success flag and payload.\<close>

type_synonym 'i advance_input = "string \<times> string \<times> bool \<times> 'i pydict option"

fun run_advances ::
  "('i, 'w) transport \<Rightarrow> 'i saga_store \<Rightarrow> 'i advance_input list \<Rightarrow> 'w \<Rightarrow> 'i saga_store \<times> 'w" where
  "run_advances tr store [] w = (store, w)"
| "run_advances tr store ((sid, st, ok, pl) # cs) w =
     (case advance_saga tr store sid st ok pl w of
        (store1, w1) \<Rightarrow> run_advances tr store1 cs w1)"

text \<open>
  The store of the order scenario: \<open>create_saga\<close> on an empty store, for order
  \<open>O1\<close> of user 1 with the single item \<open>sku-A\<close>, under the identifier \<open>S1\<close>.
\<close>

definition store_O1 :: "string saga_store" where
  "store_O1 = snd (create_saga Map.empty ''S1'' ''O1'' 1 [''sku-A''])"

section \<open>The compensation algorithm as specified\<close>

text \<open>
  The specification of compensation, in its own words: take the names of the steps
  recorded with success, in append order, and go through them in reverse; a
  reserve-inventory step gives one inventory-release event with the order id and the
  items, a charge-payment step one payment-refund event with the order id and the
  user id, any other step nothing.
\<close>

definition release_event :: "'i saga \<Rightarrow> string \<times> 'i pydict" where
  "release_event sg =
     (''inventory.release'', [(''order_id'', PyStr (order_id sg)), (''items'', PyList (items sg))])"

definition refund_event :: "'i saga \<Rightarrow> string \<times> 'i pydict" where
  "refund_event sg =
     (''payment.refund'', [(''order_id'', PyStr (order_id sg)), (''user_id'', PyInt (user_id sg))])"

definition spec_event_of :: "'i saga \<Rightarrow> string \<Rightarrow> (string \<times> 'i pydict) list" where
  "spec_event_of sg s =
     (if s = RESERVE_INVENTORY then [release_event sg]
      else if s = CHARGE_PAYMENT then [refund_event sg]
      else [])"

definition spec_compensations :: "'i saga \<Rightarrow> (string \<times> 'i pydict) list" where
  "spec_compensations sg =
     concat (map (spec_event_of sg) (rev (map step (filter success (steps sg)))))"

section \<open>Properties of the circuit breaker\<close>

subsection \<open>One call\<close>

lemma admit_Some_not_open:
  "admit b t = Some b1 \<Longrightarrow> state b1 \<noteq> OPEN \<and> failure_count b1 = failure_count b
     \<and> failure_threshold b1 = failure_threshold b \<and> recovery_timeout b1 = recovery_timeout b
     \<and> success_threshold b1 = success_threshold b"
  by (auto simp: admit_def Let_def split: if_splits)

lemma on_failure_fields:
  "failure_count (on_failure b t) = failure_count b + 1"
  "failure_threshold (on_failure b t) = failure_threshold b"
  "recovery_timeout (on_failure b t) = recovery_timeout b"
  "success_threshold (on_failure b t) = success_threshold b"
  "success_count (on_failure b t) = 0"
  by (simp_all add: on_failure_def Let_def)

lemma on_failure_opens:
  "state b \<noteq> OPEN \<Longrightarrow> failure_threshold b \<le> failure_count b + 1 \<Longrightarrow>
     state (on_failure b t) = OPEN \<and> opened_at (on_failure b t) = Some t"
  by (cases "state b") (simp_all add: on_failure_def Let_def)

lemma call_raised:
  assumes "call b t f t' w = (Inl (Raised e), b', w')"
  shows "failure_count b' = failure_count b + 1
     \<and> failure_threshold b' = failure_threshold b
     \<and> recovery_timeout b' = recovery_timeout b
     \<and> (failure_threshold b \<le> failure_count b + 1 \<longrightarrow> state b' = OPEN \<and> opened_at b' = Some t')"
proof -
  from assms obtain b1 where a: "admit b t = Some b1" and b': "b' = on_failure b1 t'"
    by (auto simp: call_def split: option.splits prod.splits sum.splits)
  from admit_Some_not_open[OF a] show ?thesis
    unfolding b' using on_failure_opens[of b1 t'] by (simp add: on_failure_fields)
qed

text \<open>The failure count is never negative: it starts at 0 and is only incremented or reset.\<close>

lemma failure_count_nonneg:
  "0 \<le> failure_count (init n ft rt st)"
  "0 \<le> failure_count b \<Longrightarrow> 0 \<le> failure_count (on_failure b t)"
  "0 \<le> failure_count (on_success b)"
  "0 \<le> failure_count b \<Longrightarrow> admit b t = Some b1 \<Longrightarrow> 0 \<le> failure_count b1"
  by (auto simp: init_def on_failure_def on_success_def admit_def Let_def split: if_splits)

lemma call_failure_count_nonneg:
  "0 \<le> failure_count b \<Longrightarrow> 0 \<le> failure_count (fst (snd (call b t f t' w)))"
  by (auto simp: call_def failure_count_nonneg split: option.splits prod.splits sum.splits)

lemma open_rejects:
  assumes "state b = OPEN" and "opened_at b = Some t0" and "t - t0 < recovery_timeout b"
  shows "call b t f t' w = (Inl CircuitBreakerError, b, w)"
  using assms by (simp add: call_def admit_def)

subsection \<open>A run of failing calls\<close>

text \<open>
  When every call of a run came back with the wrapped operation's own exception, the
  failure count has grown by the length of the run, and if it has reached the
  threshold the breaker is open since the last failure.
\<close>

lemma run_calls_all_raised:
  assumes "run_calls b cs w = (rs, b', w')"
    and "\<forall>r \<in> set rs. \<exists>e. r = Inl (Raised e)"
    and "cs \<noteq> []"
  shows "failure_count b' = failure_count b + int (length cs)
     \<and> failure_threshold b' = failure_threshold b
     \<and> recovery_timeout b' = recovery_timeout b
     \<and> (failure_threshold b \<le> failure_count b + int (length cs)
          \<longrightarrow> state b' = OPEN \<and> opened_at b' = Some (snd (snd (last cs))))"
  using assms
proof (induction cs arbitrary: b w rs)
  case Nil
  then show ?case by simp
next
  case (Cons c cs)
  obtain t f t' where c: "c = (t, f, t')" by (cases c)
  obtain r b1 w1 where c1: "call b t f t' w = (r, b1, w1)" by (cases "call b t f t' w")
  obtain rs1 where run1: "run_calls b1 cs w1 = (rs1, b', w')" and rs: "rs = r # rs1"
    using Cons.prems(1) c c1 by (auto split: prod.splits)
  from Cons.prems(2) rs obtain e where r: "r = Inl (Raised e)" by auto
  note step = call_raised[OF c1[unfolded r]]
  show ?case
  proof (cases "cs = []")
    case True
    with run1 have "b' = b1" by simp
    with step True c show ?thesis by simp
  next
    case False
    from Cons.prems(2) rs have all1: "\<forall>r \<in> set rs1. \<exists>e. r = Inl (Raised e)" by simp
    from Cons.IH[OF run1 all1 False] step False show ?thesis by simp
  qed
qed

text \<open>
  Claim C4. Take a closed breaker (with a failure count that is not negative, as every
  count the code produces is) and a run of \<open>N \<ge> failure_threshold\<close> calls, \<open>N \<ge> 1\<close>,
  each of which failed in the wrapped operation. After the last of them the breaker is
  open, with \<open>opened_at\<close> the clock reading of that failure. Any call whose clock
  reading is less than \<open>recovery_timeout\<close> later raises \<open>CircuitBreakerError\<close>,
  and leaves the breaker and the world as they were, whatever the wrapped operation
  is: the operation is not invoked.
\<close>

theorem open_after_threshold_failures_then_rejects:
  assumes "state b = CLOSED" and "0 \<le> failure_count b"
    and "cs \<noteq> []" and "failure_threshold b \<le> int (length cs)"
    and "run_calls b cs w = (rs, b', w')"
    and "\<forall>r \<in> set rs. \<exists>e. r = Inl (Raised e)"
  shows "state b' = OPEN \<and> opened_at b' = Some (snd (snd (last cs)))
     \<and> (\<forall>t f t' v. t - snd (snd (last cs)) < recovery_timeout b
           \<longrightarrow> call b' t f t' v = (Inl CircuitBreakerError, b', v))"
proof -
  from assms(2,4) have th: "failure_threshold b \<le> failure_count b + int (length cs)" by simp
  from run_calls_all_raised[OF assms(5,6,3)] th
  have st: "state b' = OPEN" and oa: "opened_at b' = Some (snd (snd (last cs)))"
    and rt: "recovery_timeout b' = recovery_timeout b" by simp_all
  show ?thesis using st oa by (simp add: open_rejects[OF st oa] rt)
qed

theorem open_after_threshold_failures_then_rejects_witness:
  "state (init ''payments'' 3 10 2) = CLOSED
   \<and> run_calls (init ''payments'' 3 10 2)
         [(0, failing_op, 1), (1, failing_op, 2), (2, failing_op, 3)] 0
       = ([Inl (Raised ''down''), Inl (Raised ''down''), Inl (Raised ''down'')],
          (init ''payments'' 3 10 2)\<lparr> state := OPEN, failure_count := 3, opened_at := Some 3 \<rparr>, 3)
   \<and> call ((init ''payments'' 3 10 2)\<lparr> state := OPEN, failure_count := 3, opened_at := Some 3 \<rparr>)
         8 working_op 8 (3::nat)
       = (Inl CircuitBreakerError,
          (init ''payments'' 3 10 2)\<lparr> state := OPEN, failure_count := 3, opened_at := Some 3 \<rparr>, 3)"
proof -
  let ?b = "init ''payments'' 3 10 2"
  let ?cs = "[(0, failing_op, 1), (1, failing_op, 2), (2, failing_op, 3)]
               :: (string, unit, nat) call_input list"
  let ?b' = "?b\<lparr> state := OPEN, failure_count := 3, opened_at := Some 3 \<rparr>"
  let ?rs = "[Inl (Raised ''down''), Inl (Raised ''down''), Inl (Raised ''down'')]
               :: (string call_error + unit) list"
  have h1: "state ?b = CLOSED" and h2: "0 \<le> failure_count ?b"
    by (simp_all add: init_def)
  have h3: "?cs \<noteq> []" by simp
  have h4: "failure_threshold ?b \<le> int (length ?cs)" by (simp add: init_def)
  have h5: "run_calls ?b ?cs 0 = (?rs, ?b', 3)"
    by (simp add: init_def call_def admit_def on_failure_def failing_op_def)
  have h6: "\<forall>r \<in> set ?rs. \<exists>e. r = Inl (Raised e)" by simp
  have "call ?b' 8 working_op 8 (3::nat) = (Inl CircuitBreakerError, ?b', 3)"
    using open_after_threshold_failures_then_rejects
            [OF h1 h2 h3 h4 h5 h6, THEN conjunct2, THEN conjunct2, rule_format,
             of 8 working_op 8 3]
    by (simp add: init_def)
  with h1 h5 show ?thesis by simp
qed

subsection \<open>A run of returning calls\<close>

lemma call_returned:
  assumes "call b t f t' w = (Inr x, b', w')"
  shows "\<exists>b1. admit b t = Some b1 \<and> b' = on_success b1"
  using assms by (auto simp: call_def split: option.splits prod.splits sum.splits)

lemma admit_idem:
  "admit b t = Some b1 \<Longrightarrow> admit b1 t2 = Some b1"
  by (auto simp: admit_def Let_def split: if_splits)

lemma call_after_admit:
  "admit b t = Some b1 \<Longrightarrow> call b t f t' w = call b1 t f t' w"
  by (simp add: call_def admit_idem)

lemma admit_not_open: "state b \<noteq> OPEN \<Longrightarrow> admit b t = Some b"
  by (simp add: admit_def)

lemma admit_open:
  "state b = OPEN \<Longrightarrow> admit b t = Some b1 \<Longrightarrow> b1 = b\<lparr> state := HALF_OPEN, success_count := 0 \<rparr>"
  by (auto simp: admit_def Let_def split: if_splits)

lemma on_success_closed:
  "state b = CLOSED \<Longrightarrow> state (on_success b) = CLOSED"
  by (simp add: on_success_def)

lemma on_success_half_open:
  "state b = HALF_OPEN \<Longrightarrow>
     success_threshold (on_success b) = success_threshold b
     \<and> success_count (on_success b) = success_count b + 1
     \<and> state (on_success b) =
         (if success_threshold b \<le> success_count b + 1 then CLOSED else HALF_OPEN)"
  by (simp add: on_success_def Let_def)

lemma run_calls_closed_returned:
  assumes "run_calls b cs w = (rs, b', w')"
    and "\<forall>r \<in> set rs. \<exists>x. r = Inr x"
    and "state b = CLOSED"
  shows "state b' = CLOSED"
  using assms
proof (induction cs arbitrary: b w rs)
  case Nil
  then show ?case by simp
next
  case (Cons c cs)
  obtain t f t' where c: "c = (t, f, t')" by (cases c)
  obtain r b1 w1 where c1: "call b t f t' w = (r, b1, w1)" by (cases "call b t f t' w")
  obtain rs1 where run1: "run_calls b1 cs w1 = (rs1, b', w')" and rs: "rs = r # rs1"
    using Cons.prems(1) c c1 by (auto split: prod.splits)
  from Cons.prems(2) rs obtain x where r: "r = Inr x" by auto
  from call_returned[OF c1[unfolded r]] Cons.prems(3)
  have "state b1 = CLOSED" by (auto simp: admit_not_open on_success_closed)
  moreover from Cons.prems(2) rs have "\<forall>r \<in> set rs1. \<exists>x. r = Inr x" by simp
  ultimately show ?case using Cons.IH[OF run1] by simp
qed

lemma run_calls_half_open_returned:
  assumes "run_calls b cs w = (rs, b', w')"
    and "\<forall>r \<in> set rs. \<exists>x. r = Inr x"
    and "state b = HALF_OPEN" and "cs \<noteq> []"
  shows "state b' =
           (if success_threshold b \<le> success_count b + int (length cs) then CLOSED else HALF_OPEN)"
  using assms
proof (induction cs arbitrary: b w rs)
  case Nil
  then show ?case by simp
next
  case (Cons c cs)
  obtain t f t' where c: "c = (t, f, t')" by (cases c)
  obtain r b1 w1 where c1: "call b t f t' w = (r, b1, w1)" by (cases "call b t f t' w")
  obtain rs1 where run1: "run_calls b1 cs w1 = (rs1, b', w')" and rs: "rs = r # rs1"
    using Cons.prems(1) c c1 by (auto split: prod.splits)
  from Cons.prems(2) rs obtain x where r: "r = Inr x" by auto
  from Cons.prems(2) rs have all1: "\<forall>r \<in> set rs1. \<exists>x. r = Inr x" by simp
  from call_returned[OF c1[unfolded r]] Cons.prems(3)
  have b1: "b1 = on_success b" by (auto simp: admit_not_open)
  note s1 = on_success_half_open[OF Cons.prems(3), folded b1]
  show ?case
  proof (cases "cs = []")
    case True
    with run1 have "b' = b1" by simp
    with s1 True show ?thesis by simp
  next
    case False
    show ?thesis
    proof (cases "success_threshold b \<le> success_count b + 1")
      case True
      with s1 have "state b1 = CLOSED" by simp
      from run_calls_closed_returned[OF run1 all1 this] True show ?thesis by simp
    next
      case F: False
      with s1 have "state b1 = HALF_OPEN" by simp
      from Cons.IH[OF run1 all1 this False] s1 show ?thesis by (simp add: add.assoc)
    qed
  qed
qed

lemma run_calls_open_returned:
  assumes "run_calls b cs w = (rs, b', w')"
    and "\<forall>r \<in> set rs. \<exists>x. r = Inr x"
    and "state b = OPEN" and "cs \<noteq> []"
  shows "state b' = (if success_threshold b \<le> int (length cs) then CLOSED else HALF_OPEN)"
proof -
  obtain c cs1 where cs: "cs = c # cs1" using assms(4) by (cases cs) auto
  obtain t f t' where c: "c = (t, f, t')" by (cases c)
  obtain r b1 w1 where c1: "call b t f t' w = (r, b1, w1)" by (cases "call b t f t' w")
  obtain rs1 where rs: "rs = r # rs1"
    using assms(1) cs c c1 by (auto split: prod.splits)
  from assms(2) rs obtain x where r: "r = Inr x" by auto
  from call_returned[OF c1[unfolded r]] obtain b0 where a: "admit b t = Some b0" by blast
  let ?h = "b\<lparr> state := HALF_OPEN, success_count := 0 \<rparr>"
  from admit_open[OF assms(3) a] a have a': "admit b t = Some ?h" by simp
  have "run_calls ?h cs w = run_calls b cs w"
    unfolding cs c by (simp add: call_after_admit[OF a'])
  with assms(1) have "run_calls ?h cs w = (rs, b', w')" by simp
  from run_calls_half_open_returned[OF this assms(2) _ assms(4)] show ?thesis by simp
qed

subsection \<open>The scenario with thresholds 3 and 2\<close>

lemmas breaker_simps = init_def call_def admit_def on_failure_def on_success_def
       failing_op_def working_op_def

lemma scenario_three_failures_open: "run_calls (init ''payments'' 3 10 2)
          [(a1, failing_op, f1), (a2, failing_op, f2), (a3, failing_op, t3)] 0
        = ([Inl (Raised ''down''), Inl (Raised ''down''), Inl (Raised ''down'')],
           (init ''payments'' 3 10 2)\<lparr> state := OPEN, failure_count := 3, opened_at := Some t3 \<rparr>,
           3)"
  by (simp add: breaker_simps)

lemma scenario_rejected_at_5: "call ((init ''payments'' 3 10 2)\<lparr> state := OPEN, failure_count := 3, opened_at := Some t3 \<rparr>)
          (t3 + 5) working_op u1 3
        = (Inl CircuitBreakerError,
           (init ''payments'' 3 10 2)\<lparr> state := OPEN, failure_count := 3, opened_at := Some t3 \<rparr>,
           3)"
  by (simp add: breaker_simps)

lemma scenario_probe_at_11: "call ((init ''payments'' 3 10 2)\<lparr> state := OPEN, failure_count := 3, opened_at := Some t3 \<rparr>)
          (t3 + 11) working_op u2 3
        = (Inr (),
           (init ''payments'' 3 10 2)\<lparr> state := HALF_OPEN, failure_count := 0,
              success_count := 1, opened_at := Some t3 \<rparr>,
           4)"
  by (simp add: breaker_simps)

lemma scenario_second_success_closes: "call ((init ''payments'' 3 10 2)\<lparr> state := HALF_OPEN, failure_count := 0,
                 success_count := 1, opened_at := Some t3 \<rparr>)
          a5 working_op u3 4
        = (Inr (),
           (init ''payments'' 3 10 2)\<lparr> state := CLOSED, failure_count := 0,
              success_count := 2, opened_at := Some t3 \<rparr>,
           5)"
  by (simp add: breaker_simps)


lemma open_probe:
  assumes "state b = OPEN"
    and "\<not> t - (case opened_at b of None \<Rightarrow> 0 | Some t0 \<Rightarrow> t0) < recovery_timeout b"
  shows "admit b t = Some (b\<lparr> state := HALF_OPEN, success_count := 0 \<rparr>)"
    and "call b t f t' w =
          (case f w of
             (Inl e, w1) \<Rightarrow>
               (Inl (Raised e), on_failure (b\<lparr> state := HALF_OPEN, success_count := 0 \<rparr>) t', w1)
           | (Inr x, w1) \<Rightarrow>
               (Inr x, on_success (b\<lparr> state := HALF_OPEN, success_count := 0 \<rparr>), w1))"
  using assms by (simp_all add: call_def admit_def)

text \<open>
  Claim C7. For an open breaker: (1) a call whose clock reading is not less than
  \<open>recovery_timeout\<close> after \<open>opened_at\<close> is admitted, the breaker goes to
  \<open>HALF_OPEN\<close> with \<open>success_count\<close> 0, and the wrapped operation runs on that
  breaker as a probe, its outcome recorded by \<open>on_failure\<close> or \<open>on_success\<close>;
  (2) after a run of \<open>k \<ge> 1\<close> calls that all returned, the breaker is closed if
  \<open>k\<close> has reached \<open>success_threshold\<close> and half-open otherwise. (3) The scenario:
  with thresholds 3 and 2 and a timeout of 10, three failing calls open the breaker at
  \<open>t3\<close>; a call at \<open>t3 + 5\<close> is rejected and the operation does not run; a call
  at \<open>t3 + 11\<close> runs and returns, leaving the breaker half-open with one success;
  one more returning call closes it.
\<close>

theorem open_probe_then_closed_after_successes:
  assumes "state b = OPEN"
  shows "(\<not> t - (case opened_at b of None \<Rightarrow> 0 | Some t0 \<Rightarrow> t0) < recovery_timeout b \<longrightarrow>
            admit b t = Some (b\<lparr> state := HALF_OPEN, success_count := 0 \<rparr>)
          \<and> call b t f t' w =
              (case f w of
                 (Inl e, w1) \<Rightarrow>
                   (Inl (Raised e), on_failure (b\<lparr> state := HALF_OPEN, success_count := 0 \<rparr>) t', w1)
               | (Inr x, w1) \<Rightarrow>
                   (Inr x, on_success (b\<lparr> state := HALF_OPEN, success_count := 0 \<rparr>), w1)))
     \<and> (cs \<noteq> [] \<and> run_calls b cs v = (rs, b', v') \<and> (\<forall>r \<in> set rs. \<exists>x. r = Inr x) \<longrightarrow>
            state b' = (if success_threshold b \<le> int (length cs) then CLOSED else HALF_OPEN))
     \<and> run_calls (init ''payments'' 3 10 2)
          [(a1, failing_op, f1), (a2, failing_op, f2), (a3, failing_op, t3)] 0
        = ([Inl (Raised ''down''), Inl (Raised ''down''), Inl (Raised ''down'')],
           (init ''payments'' 3 10 2)\<lparr> state := OPEN, failure_count := 3, opened_at := Some t3 \<rparr>,
           3)
     \<and> call ((init ''payments'' 3 10 2)\<lparr> state := OPEN, failure_count := 3, opened_at := Some t3 \<rparr>)
          (t3 + 5) working_op u1 3
        = (Inl CircuitBreakerError,
           (init ''payments'' 3 10 2)\<lparr> state := OPEN, failure_count := 3, opened_at := Some t3 \<rparr>,
           3)
     \<and> call ((init ''payments'' 3 10 2)\<lparr> state := OPEN, failure_count := 3, opened_at := Some t3 \<rparr>)
          (t3 + 11) working_op u2 3
        = (Inr (),
           (init ''payments'' 3 10 2)\<lparr> state := HALF_OPEN, failure_count := 0,
              success_count := 1, opened_at := Some t3 \<rparr>,
           4)
     \<and> call ((init ''payments'' 3 10 2)\<lparr> state := HALF_OPEN, failure_count := 0,
                 success_count := 1, opened_at := Some t3 \<rparr>)
          a5 working_op u3 4
        = (Inr (),
           (init ''payments'' 3 10 2)\<lparr> state := CLOSED, failure_count := 0,
              success_count := 2, opened_at := Some t3 \<rparr>,
           5)"
  (is "?A \<and> ?B \<and> ?S1 \<and> ?S2 \<and> ?S3 \<and> ?S4")
proof -
  have A: ?A
  proof (intro impI conjI)
    assume h: "\<not> t - (case opened_at b of None \<Rightarrow> 0 | Some t0 \<Rightarrow> t0) < recovery_timeout b"
    show "admit b t = Some (b\<lparr> state := HALF_OPEN, success_count := 0 \<rparr>)"
      by (rule open_probe(1)[OF assms h])
    show "call b t f t' w =
          (case f w of
             (Inl e, w1) \<Rightarrow>
               (Inl (Raised e), on_failure (b\<lparr> state := HALF_OPEN, success_count := 0 \<rparr>) t', w1)
           | (Inr x, w1) \<Rightarrow>
               (Inr x, on_success (b\<lparr> state := HALF_OPEN, success_count := 0 \<rparr>), w1))"
      by (rule open_probe(2)[OF assms h])
  qed
  have B: ?B
  proof
    assume h: "cs \<noteq> [] \<and> run_calls b cs v = (rs, b', v') \<and> (\<forall>r \<in> set rs. \<exists>x. r = Inr x)"
    from h have h1: "run_calls b cs v = (rs, b', v')" and h2: "\<forall>r \<in> set rs. \<exists>x. r = Inr x"
      and h3: "cs \<noteq> []" by simp_all
    from run_calls_open_returned[OF h1 h2 assms h3]
    show "state b' = (if success_threshold b \<le> int (length cs) then CLOSED else HALF_OPEN)" .
  qed
  show ?thesis
    apply (rule conjI[OF A])
    apply (rule conjI[OF B])
    apply (rule conjI[OF scenario_three_failures_open])
    apply (rule conjI[OF scenario_rejected_at_5])
    apply (rule conjI[OF scenario_probe_at_11])
    apply (rule scenario_second_success_closes)
    done
qed


theorem open_probe_then_closed_after_successes_witness:
  "state ((init ''payments'' 3 10 2)\<lparr> state := OPEN, failure_count := 3, opened_at := Some 3 \<rparr>) = OPEN
   \<and> \<not> (14::real) - 3 < 10
   \<and> admit ((init ''payments'' 3 10 2)\<lparr> state := OPEN, failure_count := 3, opened_at := Some 3 \<rparr>) 14
       = Some ((init ''payments'' 3 10 2)\<lparr> state := HALF_OPEN, failure_count := 3, opened_at := Some 3 \<rparr>)
   \<and> run_calls ((init ''payments'' 3 10 2)\<lparr> state := OPEN, failure_count := 3, opened_at := Some 3 \<rparr>)
         [(14, working_op, 14), (15, working_op, 15)] 3
       = ([Inr (), Inr ()],
          (init ''payments'' 3 10 2)\<lparr> state := CLOSED, success_count := 2, opened_at := Some 3 \<rparr>, 5)
   \<and> state ((init ''payments'' 3 10 2)\<lparr> state := CLOSED, success_count := 2, opened_at := Some 3 \<rparr>)
       = CLOSED"
proof -
  let ?b = "(init ''payments'' 3 10 2)\<lparr> state := OPEN, failure_count := 3, opened_at := Some 3 \<rparr>"
  let ?cs = "[(14, working_op, 14), (15, working_op, 15)] :: (string, unit, nat) call_input list"
  let ?rs = "[Inr (), Inr ()] :: (string call_error + unit) list"
  let ?b' = "(init ''payments'' 3 10 2)\<lparr> state := CLOSED, success_count := 2, opened_at := Some 3 \<rparr>"
  have h0: "state ?b = OPEN" by (simp add: init_def)
  have h1: "\<not> 14 - (case opened_at ?b of None \<Rightarrow> 0 | Some t0 \<Rightarrow> t0) < recovery_timeout ?b"
    by (simp add: init_def)
  have h2: "?cs \<noteq> [] \<and> run_calls ?b ?cs 3 = (?rs, ?b', 5) \<and> (\<forall>r \<in> set ?rs. \<exists>x. r = Inr x)"
    by (simp add: init_def call_def admit_def on_success_def working_op_def)
  note c7 = open_probe_then_closed_after_successes[OF h0, of 14 working_op 14 3 ?cs 3 ?rs ?b' 5]
  from c7 h1 have a: "admit ?b 14 = Some (?b\<lparr> state := HALF_OPEN, success_count := 0 \<rparr>)"
    by (rule conjunct1[THEN mp, THEN conjunct1])
  from c7 h2 have b: "state ?b' = (if success_threshold ?b \<le> int (length ?cs) then CLOSED else HALF_OPEN)"
    by (rule conjunct2[THEN conjunct1, THEN mp])
  from h0 a b h2 show ?thesis by (simp add: init_def)
qed


subsection \<open>A failure in the half-open state\<close>

text \<open>
  Claim C1 says that one failing call on a half-open breaker reopens it whatever the
  failure count is. \<open>_on_failure\<close> reopens only when the incremented count has
  reached \<open>failure_threshold\<close>, and \<open>_on_success\<close> sets the count to 0 in every
  state. So after one successful probe (with \<open>success_threshold\<close> 2) the count is 0,
  and the next failure leaves the breaker half-open: three failures open the breaker
  at time 3, the probe at time 14 returns, the call at time 15 fails, and the state is
  still \<open>HALF_OPEN\<close>, with \<open>opened_at\<close> unchanged.
\<close>

theorem half_open_failure_after_success_stays_half_open:
  "run_calls (init ''payments'' 3 10 2)
     [(0, failing_op, 1), (1, failing_op, 2), (2, failing_op, 3), (14, working_op, 14)] 0
   = ([Inl (Raised ''down''), Inl (Raised ''down''), Inl (Raised ''down''), Inr ()],
      (init ''payments'' 3 10 2)\<lparr> state := HALF_OPEN, success_count := 1, opened_at := Some 3 \<rparr>,
      4)
   \<and> call ((init ''payments'' 3 10 2)\<lparr> state := HALF_OPEN, success_count := 1, opened_at := Some 3 \<rparr>)
        15 failing_op 16 4
     = (Inl (Raised ''down''),
        (init ''payments'' 3 10 2)\<lparr> state := HALF_OPEN, failure_count := 1, opened_at := Some 3 \<rparr>,
        5)
   \<and> state ((init ''payments'' 3 10 2)\<lparr> state := HALF_OPEN, failure_count := 1, opened_at := Some 3 \<rparr>)
       \<noteq> OPEN"
  by (simp add: breaker_simps)

subsection \<open>When the success count is reset\<close>

text \<open>
  Claim C9 as stated fails on the transition from half-open to closed:
  \<open>_on_success\<close> increments \<open>success_count\<close> and never resets it. The breaker
  below is half-open with one success; a second returning call closes it and the
  snapshot reports a success count of 2.
\<close>

theorem success_count_kept_on_close_counterexample:
  "state ((init ''payments'' 3 10 2)\<lparr> state := HALF_OPEN, success_count := 1, opened_at := Some 3 \<rparr>)
     = HALF_OPEN
   \<and> call ((init ''payments'' 3 10 2)\<lparr> state := HALF_OPEN, success_count := 1, opened_at := Some 3 \<rparr>)
        15 working_op 15 4
     = (Inr (),
        (init ''payments'' 3 10 2)\<lparr> state := CLOSED, success_count := 2, opened_at := Some 3 \<rparr>,
        5)
   \<and> stats_state (get_stats
        ((init ''payments'' 3 10 2)\<lparr> state := CLOSED, success_count := 2, opened_at := Some 3 \<rparr>))
     = CLOSED
   \<and> stats_success_count (get_stats
        ((init ''payments'' 3 10 2)\<lparr> state := CLOSED, success_count := 2, opened_at := Some 3 \<rparr>))
     = 2
   \<and> stats_success_count (get_stats
        ((init ''payments'' 3 10 2)\<lparr> state := CLOSED, success_count := 2, opened_at := Some 3 \<rparr>))
     \<noteq> 0"
  by (simp add: breaker_simps get_stats_def)

text \<open>
  Claim C9 as amended. The snapshot's success count is 0 after every recorded failure.
  A half-open breaker is left only through \<open>on_failure\<close> (the admission check leaves
  it as it is), and then it is open, with the count 0. The count is also 0 when the
  breaker enters half-open from open. On the transition from half-open to closed the
  count is not reset: the snapshot reports the incremented count, which is at least
  \<open>success_threshold\<close>.
\<close>

theorem success_count_reset_on_failure_and_on_entering_half_open:
  "stats_success_count (get_stats (on_failure b t)) = 0
   \<and> (state b = HALF_OPEN \<longrightarrow> admit b t = Some b)
   \<and> (state b = HALF_OPEN \<and> state (on_failure b t) \<noteq> HALF_OPEN \<longrightarrow>
        state (on_failure b t) = OPEN)
   \<and> (state b = OPEN \<and> admit b t = Some b1 \<longrightarrow>
        state b1 = HALF_OPEN \<and> stats_success_count (get_stats b1) = 0)
   \<and> (state b = HALF_OPEN \<and> state (on_success b) \<noteq> HALF_OPEN \<longrightarrow>
        state (on_success b) = CLOSED
        \<and> stats_success_count (get_stats (on_success b)) = success_count b + 1
        \<and> success_threshold b \<le> stats_success_count (get_stats (on_success b)))"
  by (auto simp: get_stats_def on_failure_def on_success_def admit_def Let_def split: if_splits)

theorem success_count_reset_on_failure_and_on_entering_half_open_witness:
  "state ((init ''payments'' 3 10 2)\<lparr> state := HALF_OPEN, success_count := 1, opened_at := Some 3 \<rparr>)
     = HALF_OPEN
   \<and> admit ((init ''payments'' 3 10 2)\<lparr> state := HALF_OPEN, success_count := 1, opened_at := Some 3 \<rparr>) 15
     = Some ((init ''payments'' 3 10 2)\<lparr> state := HALF_OPEN, success_count := 1, opened_at := Some 3 \<rparr>)
   \<and> state (on_success
        ((init ''payments'' 3 10 2)\<lparr> state := HALF_OPEN, success_count := 1, opened_at := Some 3 \<rparr>))
     = CLOSED
   \<and> stats_success_count (get_stats (on_success
        ((init ''payments'' 3 10 2)\<lparr> state := HALF_OPEN, success_count := 1, opened_at := Some 3 \<rparr>)))
     = 2
   \<and> state ((init ''payments'' 3 10 2)\<lparr> state := HALF_OPEN, failure_count := 3, opened_at := Some 3 \<rparr>)
     = HALF_OPEN
   \<and> state (on_failure
        ((init ''payments'' 3 10 2)\<lparr> state := HALF_OPEN, failure_count := 3, opened_at := Some 3 \<rparr>) 15)
     = OPEN
   \<and> stats_success_count (get_stats (on_failure
        ((init ''payments'' 3 10 2)\<lparr> state := HALF_OPEN, failure_count := 3, opened_at := Some 3 \<rparr>) 15))
     = 0
   \<and> state ((init ''payments'' 3 10 2)\<lparr> state := OPEN, failure_count := 3, success_count := 2,
                opened_at := Some 3 \<rparr>)
     = OPEN
   \<and> admit ((init ''payments'' 3 10 2)\<lparr> state := OPEN, failure_count := 3, success_count := 2,
                opened_at := Some 3 \<rparr>) 14
     = Some ((init ''payments'' 3 10 2)\<lparr> state := HALF_OPEN, failure_count := 3, opened_at := Some 3 \<rparr>)
   \<and> stats_success_count (get_stats
        ((init ''payments'' 3 10 2)\<lparr> state := HALF_OPEN, failure_count := 3, opened_at := Some 3 \<rparr>))
     = 0"
proof -
  let ?h = "(init ''payments'' 3 10 2)\<lparr> state := HALF_OPEN, success_count := 1, opened_at := Some 3 \<rparr>"
  let ?g = "(init ''payments'' 3 10 2)\<lparr> state := HALF_OPEN, failure_count := 3, opened_at := Some 3 \<rparr>"
  let ?o = "(init ''payments'' 3 10 2)\<lparr> state := OPEN, failure_count := 3, success_count := 2,
                opened_at := Some 3 \<rparr>"
  have hs: "state ?h = HALF_OPEN" by (simp add: init_def)
  have hn: "state (on_success ?h) \<noteq> HALF_OPEN" by (simp add: init_def on_success_def)
  have gs: "state ?g = HALF_OPEN" by (simp add: init_def)
  have gn: "state (on_failure ?g 15) \<noteq> HALF_OPEN" by (simp add: init_def on_failure_def)
  have os: "state ?o = OPEN" by (simp add: init_def)
  have oa: "admit ?o 14 = Some ?g" by (simp add: init_def admit_def)
  from success_count_reset_on_failure_and_on_entering_half_open[of ?h 15] hs hn
  have 1: "admit ?h 15 = Some ?h" "state (on_success ?h) = CLOSED"
    "stats_success_count (get_stats (on_success ?h)) = success_count ?h + 1"
    by blast+
  from success_count_reset_on_failure_and_on_entering_half_open[of ?g 15] gs gn
  have 2: "state (on_failure ?g 15) = OPEN" "stats_success_count (get_stats (on_failure ?g 15)) = 0"
    by blast+
  from success_count_reset_on_failure_and_on_entering_half_open[of ?o 14 ?g] os oa
  have 3: "stats_success_count (get_stats ?g) = 0" by blast
  from hs gs os oa 1 2 3 show ?thesis by (simp add: init_def)
qed


section \<open>Properties of the saga coordinator\<close>

subsection \<open>Publishing and the compensation loop\<close>

lemma publish_returns:
  "fst (publish tr rk pl w) = Inr ()" "snd (publish tr rk pl w) = snd (tr rk pl w)"
  by (simp_all add: publish_def split: prod.splits option.splits)

lemma bus_transport_attempted:
  "attempted (snd (bus_transport fails rk pl w)) = attempted w @ [(rk, pl)]"
  by (simp add: bus_transport_def split: option.splits)

lemma bus_transport_delivered:
  "delivered (snd (bus_transport never_fails rk pl w)) = delivered w @ [(rk, pl)]"
  "delivered (snd (bus_transport always_fails rk pl w)) = delivered w"
  by (simp_all add: bus_transport_def never_fails_def always_fails_def)

lemma compensate_step_world:
  "compensate_step tr sg s w =
     (if s = RESERVE_INVENTORY then snd (tr (fst (release_event sg)) (snd (release_event sg)) w)
      else if s = CHARGE_PAYMENT then snd (tr (fst (refund_event sg)) (snd (refund_event sg)) w)
      else w)"
  by (simp add: compensate_step_def publish_def release_event_def refund_event_def
           split: prod.splits option.splits sum.splits)

lemma compensate_step_attempted:
  "attempted (compensate_step (bus_transport fails) sg s w) = attempted w @ spec_event_of sg s"
  by (simp add: compensate_step_world spec_event_of_def bus_transport_attempted)

lemma compensate_step_delivered:
  "delivered (compensate_step (bus_transport never_fails) sg s w) = delivered w @ spec_event_of sg s"
  "delivered (compensate_step (bus_transport always_fails) sg s w) = delivered w"
  by (simp_all add: compensate_step_world spec_event_of_def bus_transport_delivered)

lemma compensate_loop_attempted:
  "attempted (compensate_loop (bus_transport fails) sg ss w)
     = attempted w @ concat (map (spec_event_of sg) ss)"
  by (induction ss arbitrary: w) (simp_all add: compensate_step_attempted)

lemma compensate_loop_delivered:
  "delivered (compensate_loop (bus_transport never_fails) sg ss w)
     = delivered w @ concat (map (spec_event_of sg) ss)"
  "delivered (compensate_loop (bus_transport always_fails) sg ss w) = delivered w"
  by (induction ss arbitrary: w) (simp_all add: compensate_step_delivered)

lemma compensate_status: "fst (compensate tr sg w) = sg\<lparr> status := COMPENSATED \<rparr>"
  by (simp add: compensate_def Let_def)

lemma compensate_attempted:
  "attempted (snd (compensate (bus_transport fails) sg w)) = attempted w @ spec_compensations sg"
  by (simp add: compensate_def Let_def compensate_loop_attempted spec_compensations_def)

lemma compensate_delivered:
  "delivered (snd (compensate (bus_transport never_fails) sg w)) = delivered w @ spec_compensations sg"
  "delivered (snd (compensate (bus_transport always_fails) sg w)) = delivered w"
  by (simp_all add: compensate_def Let_def compensate_loop_delivered spec_compensations_def)

lemma spec_compensations_cong:
  "order_id sg' = order_id sg \<Longrightarrow> user_id sg' = user_id sg \<Longrightarrow> items sg' = items sg \<Longrightarrow>
   map step (filter success (steps sg')) = map step (filter success (steps sg)) \<Longrightarrow>
   spec_compensations sg' = spec_compensations sg"
proof -
  assume a: "order_id sg' = order_id sg" "user_id sg' = user_id sg" "items sg' = items sg"
    and b: "map step (filter success (steps sg')) = map step (filter success (steps sg))"
  from a have "spec_event_of sg' = spec_event_of sg"
    by (intro ext) (simp add: spec_event_of_def release_event_def refund_event_def)
  with b show ?thesis by (simp add: spec_compensations_def)
qed

lemma advance_saga_failed:
  assumes "store sid = Some sg"
  shows "advance_saga tr store sid st False pl w =
           (store(sid \<mapsto> sg\<lparr> steps := steps sg @
               [\<lparr> step = st, success = False,
                  payload = (case pl of None \<Rightarrow> [] | Some p \<Rightarrow> p) \<rparr>],
               status := COMPENSATED \<rparr>),
            snd (compensate tr (sg\<lparr> steps := steps sg @
               [\<lparr> step = st, success = False,
                  payload = (case pl of None \<Rightarrow> [] | Some p \<Rightarrow> p) \<rparr>],
               status := COMPENSATING \<rparr>) w))"
  using assms by (simp add: advance_saga_def Let_def compensate_def split: prod.splits)

lemma advance_saga_failed_attempted:
  assumes "store sid = Some sg"
  shows "attempted (snd (advance_saga (bus_transport fails) store sid st False pl w))
           = attempted w @ spec_compensations sg"
proof -
  have "spec_compensations (sg\<lparr> steps := steps sg @
               [\<lparr> step = st, success = False,
                  payload = (case pl of None \<Rightarrow> [] | Some p \<Rightarrow> p) \<rparr>],
               status := COMPENSATING \<rparr>) = spec_compensations sg"
    by (rule spec_compensations_cong) simp_all
  then show ?thesis by (simp add: advance_saga_failed[where store=store and sid=sid, OF assms] compensate_attempted)
qed

subsection \<open>Counting compensating events\<close>

lemma spec_events_release_count:
  "length (filter (\<lambda>e. fst e = ''inventory.release'') (concat (map (spec_event_of sg) ns)))
     = length (filter (\<lambda>n. n = RESERVE_INVENTORY) ns)"
  by (induction ns) (simp_all add: spec_event_of_def release_event_def refund_event_def)

lemma spec_events_refund_count:
  "length (filter (\<lambda>e. fst e = ''payment.refund'') (concat (map (spec_event_of sg) ns)))
     = length (filter (\<lambda>n. n = CHARGE_PAYMENT) ns)"
  by (induction ns) (simp_all add: spec_event_of_def release_event_def refund_event_def)

lemma spec_events_length:
  "length (concat (map (spec_event_of sg) ns)) \<le> length ns"
  by (induction ns) (simp_all add: spec_event_of_def)

lemma count_successful_names:
  "length (filter (\<lambda>n. n = x) (rev (map step (filter success xs))))
     = length (filter (\<lambda>r. success r \<and> step r = x) xs)"
  by (induction xs) simp_all

lemma spec_compensations_release_count:
  "length (filter (\<lambda>e. fst e = ''inventory.release'') (spec_compensations sg))
     = length (filter (\<lambda>r. success r \<and> step r = RESERVE_INVENTORY) (steps sg))"
  unfolding spec_compensations_def spec_events_release_count by (rule count_successful_names)

lemma spec_compensations_refund_count:
  "length (filter (\<lambda>e. fst e = ''payment.refund'') (spec_compensations sg))
     = length (filter (\<lambda>r. success r \<and> step r = CHARGE_PAYMENT) (steps sg))"
  unfolding spec_compensations_def spec_events_refund_count by (rule count_successful_names)

lemma spec_compensations_length:
  "length (spec_compensations sg) \<le> length (filter success (steps sg))"
  unfolding spec_compensations_def using spec_events_length[of sg "rev (map step (filter success (steps sg)))"]
  by simp

lemmas saga_simps = store_O1_def create_saga_def advance_saga_def compensate_def
  compensate_step_def publish_def bus_transport_def never_fails_def always_fails_def
  empty_bus_def get_saga_def Let_def

lemma scenario_O1_saga:
  "get_saga (fst (run_advances (bus_transport never_fails) store_O1
     [(''S1'', RESERVE_INVENTORY, True, None), (''S1'', CHARGE_PAYMENT, False, None)] empty_bus)) ''S1''
   = Some \<lparr> saga_id = ''S1'', order_id = ''O1'', user_id = 1, items = [''sku-A''],
            status = COMPENSATED,
            steps = [\<lparr> step = RESERVE_INVENTORY, success = True, payload = [] \<rparr>,
                     \<lparr> step = CHARGE_PAYMENT, success = False, payload = [] \<rparr>],
            compensations = [] \<rparr>"
  by (simp add: saga_simps)

lemma scenario_O1_bus:
  "snd (run_advances (bus_transport never_fails) store_O1
     [(''S1'', RESERVE_INVENTORY, True, None), (''S1'', CHARGE_PAYMENT, False, None)] empty_bus)
   = \<lparr> attempted = [(''inventory.release'', [(''order_id'', PyStr ''O1''), (''items'', PyList [''sku-A''])])],
       delivered = [(''inventory.release'', [(''order_id'', PyStr ''O1''), (''items'', PyList [''sku-A''])])] \<rparr>"
  by (simp add: saga_simps)

lemma scenario_back_to_running:
  "get_saga (fst (run_advances (bus_transport never_fails) store_O1
     [(''S1'', RESERVE_INVENTORY, True, None), (''S1'', CHARGE_PAYMENT, False, None),
      (''S1'', CHARGE_PAYMENT, True, None)] empty_bus)) ''S1''
   = Some \<lparr> saga_id = ''S1'', order_id = ''O1'', user_id = 1, items = [''sku-A''],
            status = RUNNING,
            steps = [\<lparr> step = RESERVE_INVENTORY, success = True, payload = [] \<rparr>,
                     \<lparr> step = CHARGE_PAYMENT, success = False, payload = [] \<rparr>,
                     \<lparr> step = CHARGE_PAYMENT, success = True, payload = [] \<rparr>],
            compensations = [] \<rparr>"
  by (simp add: saga_simps del: set_filter)

lemma scenario_back_to_completed:
  "get_saga (fst (run_advances (bus_transport never_fails) store_O1
     [(''S1'', RESERVE_INVENTORY, True, None), (''S1'', CHARGE_PAYMENT, False, None),
      (''S1'', CHARGE_PAYMENT, True, None), (''S1'', CONFIRM_ORDER, True, None)] empty_bus)) ''S1''
   = Some \<lparr> saga_id = ''S1'', order_id = ''O1'', user_id = 1, items = [''sku-A''],
            status = COMPLETED,
            steps = [\<lparr> step = RESERVE_INVENTORY, success = True, payload = [] \<rparr>,
                     \<lparr> step = CHARGE_PAYMENT, success = False, payload = [] \<rparr>,
                     \<lparr> step = CHARGE_PAYMENT, success = True, payload = [] \<rparr>,
                     \<lparr> step = CONFIRM_ORDER, success = True, payload = [] \<rparr>],
            compensations = [] \<rparr>"
  by (simp add: saga_simps del: set_filter)

subsection \<open>One call of \<open>advance_saga\<close>\<close>

lemma advance_saga_unknown:
  "store sid = None \<Longrightarrow> advance_saga tr store sid st ok pl w = (store, w)"
  by (simp add: advance_saga_def)

lemma advance_saga_succeeded:
  assumes "store sid = Some sg"
  shows "advance_saga tr store sid st True pl w =
           (store(sid \<mapsto> sg\<lparr> steps := steps sg @
               [\<lparr> step = st, success = True,
                  payload = (case pl of None \<Rightarrow> [] | Some p \<Rightarrow> p) \<rparr>],
               status := (if {RESERVE_INVENTORY, CHARGE_PAYMENT, CONFIRM_ORDER}
                             \<subseteq> set (map step (filter success (steps sg))) \<union> {st}
                          then COMPLETED else RUNNING) \<rparr>),
            w)"
  using assms by (simp add: advance_saga_def Let_def del: set_filter)

lemma successful_names:
  "set (map step (filter success xs)) = {step r | r. r \<in> set xs \<and> success r}"
  by auto

lemma advance_saga_success_status:
  assumes "store sid = Some sg"
  shows "\<exists>sg'. get_saga (fst (advance_saga tr store sid st True pl w)) sid = Some sg'
           \<and> snd (advance_saga tr store sid st True pl w) = w
           \<and> steps sg' = steps sg @
               [\<lparr> step = st, success = True,
                  payload = (case pl of None \<Rightarrow> [] | Some p \<Rightarrow> p) \<rparr>]
           \<and> status sg' =
               (if {RESERVE_INVENTORY, CHARGE_PAYMENT, CONFIRM_ORDER}
                     \<subseteq> {step r | r. r \<in> set (steps sg') \<and> success r}
                then COMPLETED else RUNNING)"
proof -
  let ?r = "\<lparr> step = st, success = True, payload = (case pl of None \<Rightarrow> [] | Some p \<Rightarrow> p) \<rparr>"
  let ?done = "set (map step (filter success (steps sg))) \<union> {st}"
  let ?sg' = "sg\<lparr> steps := steps sg @ [?r],
                  status := (if {RESERVE_INVENTORY, CHARGE_PAYMENT, CONFIRM_ORDER} \<subseteq> ?done
                             then COMPLETED else RUNNING) \<rparr>"
  have eq: "advance_saga tr store sid st True pl w = (store(sid \<mapsto> ?sg'), w)"
    by (rule advance_saga_succeeded[where store=store and sid=sid, OF assms])
  have stp: "steps ?sg' = steps sg @ [?r]" by simp
  have "{step r | r. r \<in> set (steps sg @ [?r]) \<and> success r} = ?done" (is "?L = _")
  proof
    show "?L \<subseteq> ?done" by auto
    have "st \<in> ?L" by (rule CollectI, rule exI[of _ ?r]) simp
    moreover have "set (map step (filter success (steps sg))) \<subseteq> ?L" by auto
    ultimately show "?done \<subseteq> ?L" by simp
  qed
  then have set_eq: "{step r | r. r \<in> set (steps ?sg') \<and> success r} = ?done"
    unfolding stp .
  have sts: "status ?sg' =
               (if {RESERVE_INVENTORY, CHARGE_PAYMENT, CONFIRM_ORDER}
                     \<subseteq> {step r | r. r \<in> set (steps ?sg') \<and> success r}
                then COMPLETED else RUNNING)"
    unfolding set_eq by (simp del: set_filter set_map)
  have g: "get_saga (fst (advance_saga tr store sid st True pl w)) sid = Some ?sg'"
    unfolding eq by (simp add: get_saga_def)
  have w: "snd (advance_saga tr store sid st True pl w) = w" unfolding eq by simp
  show ?thesis
    by (rule exI[of _ ?sg'], intro conjI) (rule g, rule w, rule stp, rule sts)
qed


lemma three_successes:
  "get_saga (fst (run_advances tr (snd (create_saga store sid oid uid its))
       [(sid, s1, True, p1), (sid, s2, True, p2), (sid, s3, True, p3)] w)) sid
   = Some \<lparr> saga_id = sid, order_id = oid, user_id = uid, items = its,
            status = (if {RESERVE_INVENTORY, CHARGE_PAYMENT, CONFIRM_ORDER} \<subseteq> {s1, s2, s3}
                      then COMPLETED else RUNNING),
            steps = [\<lparr> step = s1, success = True, payload = (case p1 of None \<Rightarrow> [] | Some p \<Rightarrow> p) \<rparr>,
                     \<lparr> step = s2, success = True, payload = (case p2 of None \<Rightarrow> [] | Some p \<Rightarrow> p) \<rparr>,
                     \<lparr> step = s3, success = True, payload = (case p3 of None \<Rightarrow> [] | Some p \<Rightarrow> p) \<rparr>],
            compensations = [] \<rparr>"
  by (simp add: create_saga_def advance_saga_def get_saga_def Let_def del: set_filter)

lemma three_successes_completed:
  assumes "{RESERVE_INVENTORY, CHARGE_PAYMENT, CONFIRM_ORDER} \<subseteq> {s1, s2, s3}"
  shows "\<exists>sg'. get_saga (fst (run_advances tr (snd (create_saga store sid oid uid its))
       [(sid, s1, True, p1), (sid, s2, True, p2), (sid, s3, True, p3)] w)) sid = Some sg'
     \<and> status sg' = COMPLETED"
  unfolding three_successes using assms by simp

lemma frame_trans:
  "sg2 = sg1\<lparr> status := a, steps := b \<rparr> \<Longrightarrow> sg1 = sg\<lparr> status := c, steps := d \<rparr> \<Longrightarrow>
     sg2 = sg\<lparr> status := status sg2, steps := steps sg2 \<rparr>"
  by simp

lemma advance_saga_frame:
  assumes "store sid = Some sg"
  shows "\<exists>sg'. fst (advance_saga tr store sid2 st ok pl w) sid = Some sg'
           \<and> sg' = sg\<lparr> status := status sg', steps := steps sg' \<rparr>"
proof (cases "store sid2")
  case None
  then show ?thesis using assms by (simp add: advance_saga_unknown)
next
  case (Some sg2)
  note ok_eq = advance_saga_succeeded[where store=store and sid=sid2, OF Some, of tr st pl w]
  note ko_eq = advance_saga_failed[where store=store and sid=sid2, OF Some, of tr st pl w]
  show ?thesis
  proof (cases ok)
    case True
    then have "advance_saga tr store sid2 st ok pl w = advance_saga tr store sid2 st True pl w"
      by simp
    then show ?thesis using assms Some unfolding ok_eq
      by (cases "sid2 = sid") (simp_all del: set_filter set_map)
  next
    case False
    then have "advance_saga tr store sid2 st ok pl w = advance_saga tr store sid2 st False pl w"
      by simp
    then show ?thesis using assms Some unfolding ko_eq
      by (cases "sid2 = sid") simp_all
  qed
qed

lemma advance_saga_absent:
  "store sid = None \<Longrightarrow> fst (advance_saga tr store sid2 st ok pl w) sid = None"
  by (auto simp: advance_saga_def Let_def compensate_def split: option.splits simp del: set_filter set_map)

lemma run_advances_frame:
  assumes "store sid = Some sg"
  shows "\<exists>sg'. fst (run_advances tr store cs w) sid = Some sg'
           \<and> sg' = sg\<lparr> status := status sg', steps := steps sg' \<rparr>"
  using assms
proof (induction cs arbitrary: store sg w)
  case Nil
  then show ?case by simp
next
  case (Cons c cs)
  obtain sid2 st ok pl where c: "c = (sid2, st, ok, pl)" by (cases c)
  obtain store1 w1 where a: "advance_saga tr store sid2 st ok pl w = (store1, w1)"
    by (cases "advance_saga tr store sid2 st ok pl w")
  from advance_saga_frame[where store=store and sid=sid, OF Cons.prems, of tr sid2 st ok pl w] a
  obtain sg1 where s1: "store1 sid = Some sg1"
    and f1: "sg1 = sg\<lparr> status := status sg1, steps := steps sg1 \<rparr>" by auto
  from Cons.IH[where store=store1 and sg=sg1, OF s1, of w1]
  obtain sg2 where s2: "fst (run_advances tr store1 cs w1) sid = Some sg2"
    and f2: "sg2 = sg1\<lparr> status := status sg2, steps := steps sg2 \<rparr>" by auto
  from frame_trans[OF f2 f1] s2 show ?case by (simp add: c a)
qed

lemma run_advances_absent:
  "store sid = None \<Longrightarrow> fst (run_advances tr store cs w) sid = None"
proof (induction cs arbitrary: store w)
  case Nil
  then show ?case by simp
next
  case (Cons c cs)
  obtain sid2 st ok pl where c: "c = (sid2, st, ok, pl)" by (cases c)
  obtain store1 w1 where a: "advance_saga tr store sid2 st ok pl w = (store1, w1)"
    by (cases "advance_saga tr store sid2 st ok pl w")
  from advance_saga_absent[where store=store and sid=sid, OF Cons.prems, of tr sid2 st ok pl w] a have "store1 sid = None" by simp
  from Cons.IH[where store=store1, OF this, of w1] show ?case by (simp add: c a)
qed

subsection \<open>Compensation\<close>

lemma advance_saga_failed_delivered:
  assumes "store sid = Some sg"
  shows "delivered (snd (advance_saga (bus_transport never_fails) store sid st False pl w))
           = delivered w @ spec_compensations sg"
proof -
  have "spec_compensations (sg\<lparr> steps := steps sg @
               [\<lparr> step = st, success = False,
                  payload = (case pl of None \<Rightarrow> [] | Some p \<Rightarrow> p) \<rparr>],
               status := COMPENSATING \<rparr>) = spec_compensations sg"
    by (rule spec_compensations_cong) simp_all
  then show ?thesis
    by (simp add: advance_saga_failed[where store=store and sid=sid, OF assms] compensate_delivered)
qed

lemma advance_saga_failed_stored:
  assumes "store sid = Some sg"
  shows "get_saga (fst (advance_saga tr store sid st False pl w)) sid =
           Some (sg\<lparr> steps := steps sg @
               [\<lparr> step = st, success = False,
                  payload = (case pl of None \<Rightarrow> [] | Some p \<Rightarrow> p) \<rparr>],
               status := COMPENSATED \<rparr>)"
  by (simp add: advance_saga_failed[where store=store and sid=sid, OF assms] get_saga_def)

lemma spec_event_of_cases:
  "spec_event_of sg RESERVE_INVENTORY =
     [(''inventory.release'', [(''order_id'', PyStr (order_id sg)), (''items'', PyList (items sg))])]"
  "spec_event_of sg CHARGE_PAYMENT =
     [(''payment.refund'', [(''order_id'', PyStr (order_id sg)), (''user_id'', PyInt (user_id sg))])]"
  "spec_event_of sg CONFIRM_ORDER = []"
  by (simp_all add: spec_event_of_def release_event_def refund_event_def)

text \<open>
  Claim C5. When \<open>advance_saga\<close> records a failed step for a stored saga, the saga
  is stored with the step appended and status \<open>COMPENSATED\<close>, and the publishes
  attempted on the bus are the events of the step names recorded with success, in
  reverse append order: the inventory-release event with the order id and the items
  for \<open>reserve_inventory\<close>, the payment-refund event with the order id and the user
  id for \<open>charge_payment\<close>, nothing for \<open>confirm_order\<close>. On a bus that never
  fails these are also the events that went out. Scenario: for order \<open>O1\<close>, a
  successful \<open>reserve_inventory\<close> followed by a failed \<open>charge_payment\<close> leaves
  the saga \<open>COMPENSATED\<close> and on the bus one inventory-release event for \<open>O1\<close>
  and \<open>[sku-A]\<close>, and no payment-refund event.
\<close>

theorem compensation_in_reverse_order:
  assumes "store sid = Some sg"
  shows "get_saga (fst (advance_saga tr store sid st False pl w)) sid =
           Some (sg\<lparr> steps := steps sg @
               [\<lparr> step = st, success = False,
                  payload = (case pl of None \<Rightarrow> [] | Some p \<Rightarrow> p) \<rparr>],
               status := COMPENSATED \<rparr>)
     \<and> attempted (snd (advance_saga (bus_transport fails) store sid st False pl v))
         = attempted v @ concat (map (spec_event_of sg) (rev (map step (filter success (steps sg)))))
     \<and> delivered (snd (advance_saga (bus_transport never_fails) store sid st False pl v))
         = delivered v @ concat (map (spec_event_of sg) (rev (map step (filter success (steps sg)))))
     \<and> spec_event_of sg RESERVE_INVENTORY =
         [(''inventory.release'', [(''order_id'', PyStr (order_id sg)), (''items'', PyList (items sg))])]
     \<and> spec_event_of sg CHARGE_PAYMENT =
         [(''payment.refund'', [(''order_id'', PyStr (order_id sg)), (''user_id'', PyInt (user_id sg))])]
     \<and> spec_event_of sg CONFIRM_ORDER = []
     \<and> get_saga (fst (run_advances (bus_transport never_fails) store_O1
          [(''S1'', RESERVE_INVENTORY, True, None), (''S1'', CHARGE_PAYMENT, False, None)] empty_bus)) ''S1''
        = Some \<lparr> saga_id = ''S1'', order_id = ''O1'', user_id = 1, items = [''sku-A''],
            status = COMPENSATED,
            steps = [\<lparr> step = RESERVE_INVENTORY, success = True, payload = [] \<rparr>,
                     \<lparr> step = CHARGE_PAYMENT, success = False, payload = [] \<rparr>],
            compensations = [] \<rparr>
     \<and> snd (run_advances (bus_transport never_fails) store_O1
          [(''S1'', RESERVE_INVENTORY, True, None), (''S1'', CHARGE_PAYMENT, False, None)] empty_bus)
        = \<lparr> attempted = [(''inventory.release'', [(''order_id'', PyStr ''O1''), (''items'', PyList [''sku-A''])])],
            delivered = [(''inventory.release'', [(''order_id'', PyStr ''O1''), (''items'', PyList [''sku-A''])])] \<rparr>"
  apply (rule conjI[OF advance_saga_failed_stored[where store=store and sid=sid, OF assms]])
  apply (rule conjI[OF advance_saga_failed_attempted[where store=store and sid=sid, OF assms,
                       unfolded spec_compensations_def]])
  apply (rule conjI[OF advance_saga_failed_delivered[where store=store and sid=sid, OF assms,
                       unfolded spec_compensations_def]])
  apply (rule conjI[OF spec_event_of_cases(1)])
  apply (rule conjI[OF spec_event_of_cases(2)])
  apply (rule conjI[OF spec_event_of_cases(3)])
  apply (rule conjI[OF scenario_O1_saga])
  apply (rule scenario_O1_bus)
  done

theorem compensation_in_reverse_order_witness:
  "[''S1'' \<mapsto> \<lparr> saga_id = ''S1'', order_id = ''O1'', user_id = 1, items = [''sku-A''],
            status = RUNNING,
            steps = [\<lparr> step = RESERVE_INVENTORY, success = True, payload = [] \<rparr>],
            compensations = [] \<rparr>] ''S1''
     = Some \<lparr> saga_id = ''S1'', order_id = ''O1'', user_id = 1, items = [''sku-A''],
            status = RUNNING,
            steps = [\<lparr> step = RESERVE_INVENTORY, success = True, payload = [] \<rparr>],
            compensations = [] \<rparr>
   \<and> get_saga (fst (advance_saga (bus_transport always_fails)
        [''S1'' \<mapsto> \<lparr> saga_id = ''S1'', order_id = ''O1'', user_id = 1, items = [''sku-A''],
            status = RUNNING,
            steps = [\<lparr> step = RESERVE_INVENTORY, success = True, payload = [] \<rparr>],
            compensations = [] \<rparr>]
        ''S1'' CHARGE_PAYMENT False None empty_bus)) ''S1''
     = Some \<lparr> saga_id = ''S1'', order_id = ''O1'', user_id = 1, items = [''sku-A''],
            status = COMPENSATED,
            steps = [\<lparr> step = RESERVE_INVENTORY, success = True, payload = [] \<rparr>,
                     \<lparr> step = CHARGE_PAYMENT, success = False, payload = [] \<rparr>],
            compensations = [] \<rparr>
   \<and> attempted (snd (advance_saga (bus_transport always_fails)
        [''S1'' \<mapsto> \<lparr> saga_id = ''S1'', order_id = ''O1'', user_id = 1, items = [''sku-A''],
            status = RUNNING,
            steps = [\<lparr> step = RESERVE_INVENTORY, success = True, payload = [] \<rparr>],
            compensations = [] \<rparr>]
        ''S1'' CHARGE_PAYMENT False None empty_bus))
     = [(''inventory.release'', [(''order_id'', PyStr ''O1''), (''items'', PyList [''sku-A''])])]"
proof -
  let ?sg = "\<lparr> saga_id = ''S1'', order_id = ''O1'', user_id = 1, items = [''sku-A''],
            status = RUNNING,
            steps = [\<lparr> step = RESERVE_INVENTORY, success = True, payload = [] \<rparr>],
            compensations = [] \<rparr> :: string saga"
  let ?store = "[''S1'' \<mapsto> ?sg]"
  have h: "?store ''S1'' = Some ?sg" by simp
  note t = compensation_in_reverse_order[where store="?store" and sid="''S1''", OF h,
              of "bus_transport always_fails" CHARGE_PAYMENT None empty_bus always_fails empty_bus]
  from t have a: "get_saga (fst (advance_saga (bus_transport always_fails) ?store ''S1''
        CHARGE_PAYMENT False None empty_bus)) ''S1''
     = Some (?sg\<lparr> steps := steps ?sg @ [\<lparr> step = CHARGE_PAYMENT, success = False,
                  payload = (case None of None \<Rightarrow> [] | Some p \<Rightarrow> p) \<rparr>], status := COMPENSATED \<rparr>)"
    by (rule conjunct1)
  from t have b: "attempted (snd (advance_saga (bus_transport always_fails) ?store ''S1''
        CHARGE_PAYMENT False None empty_bus))
     = attempted empty_bus @ concat (map (spec_event_of ?sg) (rev (map step (filter success (steps ?sg)))))"
    by (rule conjunct2[THEN conjunct1])
  have c: "spec_event_of ?sg RESERVE_INVENTORY
     = [(''inventory.release'', [(''order_id'', PyStr ''O1''), (''items'', PyList [''sku-A''])])]"
    by (simp add: spec_event_of_cases)
  show ?thesis
    apply (rule conjI[OF h])
    apply (rule conjI)
     apply (simp add: a)
    apply (simp only: b)
    apply (simp add: c empty_bus_def)
    done
qed

text \<open>
  Claim C8. \<open>publish\<close> returns normally whatever the transport does, so a failed
  publish is caught. \<open>compensate\<close> ends with status \<open>COMPENSATED\<close> for every
  transport. On the recording bus every compensation is attempted whichever attempts
  fail; when every publish fails nothing goes out, all are attempted all the same. The
  last conjunct runs this on a saga with two successful steps and a failed one.
\<close>

theorem compensation_survives_publish_failures:
  "fst (publish tr rk pl w) = Inr ()
   \<and> fst (compensate tr sg w) = sg\<lparr> status := COMPENSATED \<rparr>
   \<and> attempted (snd (compensate (bus_transport fails) sg v)) = attempted v @ spec_compensations sg
   \<and> delivered (snd (compensate (bus_transport always_fails) sg v)) = delivered v
   \<and> compensate (bus_transport always_fails)
        \<lparr> saga_id = ''S1'', order_id = ''O1'', user_id = 1, items = [''sku-A''],
          status = COMPENSATING,
          steps = [\<lparr> step = RESERVE_INVENTORY, success = True, payload = [] \<rparr>,
                   \<lparr> step = CHARGE_PAYMENT, success = True, payload = [] \<rparr>,
                   \<lparr> step = CONFIRM_ORDER, success = False, payload = [] \<rparr>],
          compensations = [] \<rparr>
        empty_bus
     = (\<lparr> saga_id = ''S1'', order_id = ''O1'', user_id = 1, items = [''sku-A''],
          status = COMPENSATED,
          steps = [\<lparr> step = RESERVE_INVENTORY, success = True, payload = [] \<rparr>,
                   \<lparr> step = CHARGE_PAYMENT, success = True, payload = [] \<rparr>,
                   \<lparr> step = CONFIRM_ORDER, success = False, payload = [] \<rparr>],
          compensations = [] \<rparr>,
        \<lparr> attempted = [(''payment.refund'', [(''order_id'', PyStr ''O1''), (''user_id'', PyInt 1)]),
                       (''inventory.release'', [(''order_id'', PyStr ''O1''), (''items'', PyList [''sku-A''])])],
          delivered = [] \<rparr>)"
  apply (rule conjI[OF publish_returns(1)])
  apply (rule conjI[OF compensate_status])
  apply (rule conjI[OF compensate_attempted])
  apply (rule conjI[OF compensate_delivered(2)])
  apply (simp add: saga_simps)
  done

text \<open>
  Claim C3 as stated fails: nothing records which compensations were emitted, and
  every failing \<open>advance_saga\<close> call runs the whole compensation again. After one
  successful \<open>reserve_inventory\<close>, two calls with the failing step
  \<open>charge_payment\<close> publish the inventory-release event twice.
\<close>

theorem compensation_emitted_again_counterexample:
  "snd (run_advances (bus_transport never_fails) store_O1
     [(''S1'', RESERVE_INVENTORY, True, None), (''S1'', CHARGE_PAYMENT, False, None),
      (''S1'', CHARGE_PAYMENT, False, None)] empty_bus)
   = \<lparr> attempted = [(''inventory.release'', [(''order_id'', PyStr ''O1''), (''items'', PyList [''sku-A''])]),
                    (''inventory.release'', [(''order_id'', PyStr ''O1''), (''items'', PyList [''sku-A''])])],
       delivered = [(''inventory.release'', [(''order_id'', PyStr ''O1''), (''items'', PyList [''sku-A''])]),
                    (''inventory.release'', [(''order_id'', PyStr ''O1''), (''items'', PyList [''sku-A''])])] \<rparr>"
  by (simp add: saga_simps)

lemma advance_saga_failed_twice_attempted:
  assumes "store sid = Some sg"
  shows "attempted (snd (run_advances (bus_transport fails) store
            [(sid, st, False, pl), (sid, st, False, pl)] w))
           = attempted w @ spec_compensations sg @ spec_compensations sg"
proof -
  let ?r = "\<lparr> step = st, success = False, payload = (case pl of None \<Rightarrow> [] | Some p \<Rightarrow> p) \<rparr>"
  let ?sg1 = "sg\<lparr> steps := steps sg @ [?r], status := COMPENSATED \<rparr>"
  obtain store1 w1 where a: "advance_saga (bus_transport fails) store sid st False pl w = (store1, w1)"
    by (cases "advance_saga (bus_transport fails) store sid st False pl w")
  from a advance_saga_failed[where store=store and sid=sid, OF assms, of "bus_transport fails" st pl w]
  have "store1 = store(sid \<mapsto> ?sg1)" by simp
  then have s1: "store1 sid = Some ?sg1" by simp
  from a advance_saga_failed_attempted[where store=store and sid=sid, OF assms, of fails st pl w]
  have w1: "attempted w1 = attempted w @ spec_compensations sg" by simp
  have "spec_compensations ?sg1 = spec_compensations sg"
    by (rule spec_compensations_cong) simp_all
  with advance_saga_failed_attempted[where store=store1 and sid=sid, OF s1, of fails st pl w1] w1
  have "attempted (snd (advance_saga (bus_transport fails) store1 sid st False pl w1))
          = attempted w @ spec_compensations sg @ spec_compensations sg" by simp
  then show ?thesis by (auto simp: a split: prod.splits)
qed

text \<open>
  Claim C3 as amended. One failing \<open>advance_saga\<close> call attempts the events of the
  specification once: at most one per successful record, exactly one inventory-release
  event per successful \<open>reserve_inventory\<close> record and one payment-refund event per
  successful \<open>charge_payment\<close> record. A second call with the same failing step
  attempts the same events again.
\<close>

theorem compensations_per_failing_call:
  assumes "store sid = Some sg"
  shows "attempted (snd (advance_saga (bus_transport fails) store sid st False pl w))
           = attempted w @ spec_compensations sg
     \<and> length (spec_compensations sg) \<le> length (filter success (steps sg))
     \<and> length (filter (\<lambda>e. fst e = ''inventory.release'') (spec_compensations sg))
         = length (filter (\<lambda>r. success r \<and> step r = RESERVE_INVENTORY) (steps sg))
     \<and> length (filter (\<lambda>e. fst e = ''payment.refund'') (spec_compensations sg))
         = length (filter (\<lambda>r. success r \<and> step r = CHARGE_PAYMENT) (steps sg))
     \<and> attempted (snd (run_advances (bus_transport fails) store
            [(sid, st, False, pl), (sid, st, False, pl)] w))
         = attempted w @ spec_compensations sg @ spec_compensations sg"
  apply (rule conjI[OF advance_saga_failed_attempted[where store=store and sid=sid, OF assms]])
  apply (rule conjI[OF spec_compensations_length])
  apply (rule conjI[OF spec_compensations_release_count])
  apply (rule conjI[OF spec_compensations_refund_count])
  apply (rule advance_saga_failed_twice_attempted[where store=store and sid=sid, OF assms])
  done

theorem compensations_per_failing_call_witness:
  "[''S1'' \<mapsto> \<lparr> saga_id = ''S1'', order_id = ''O1'', user_id = 1, items = [''sku-A''],
            status = RUNNING,
            steps = [\<lparr> step = RESERVE_INVENTORY, success = True, payload = [] \<rparr>],
            compensations = [] \<rparr>] ''S1''
     = Some \<lparr> saga_id = ''S1'', order_id = ''O1'', user_id = 1, items = [''sku-A''],
            status = RUNNING,
            steps = [\<lparr> step = RESERVE_INVENTORY, success = True, payload = [] \<rparr>],
            compensations = [] \<rparr>
   \<and> attempted (snd (run_advances (bus_transport never_fails)
        [''S1'' \<mapsto> \<lparr> saga_id = ''S1'', order_id = ''O1'', user_id = 1, items = [''sku-A''],
            status = RUNNING,
            steps = [\<lparr> step = RESERVE_INVENTORY, success = True, payload = [] \<rparr>],
            compensations = [] \<rparr>]
        [(''S1'', CHARGE_PAYMENT, False, None), (''S1'', CHARGE_PAYMENT, False, None)] empty_bus))
     = [(''inventory.release'', [(''order_id'', PyStr ''O1''), (''items'', PyList [''sku-A''])]),
        (''inventory.release'', [(''order_id'', PyStr ''O1''), (''items'', PyList [''sku-A''])])]"
proof -
  let ?sg = "\<lparr> saga_id = ''S1'', order_id = ''O1'', user_id = 1, items = [''sku-A''],
            status = RUNNING,
            steps = [\<lparr> step = RESERVE_INVENTORY, success = True, payload = [] \<rparr>],
            compensations = [] \<rparr> :: string saga"
  let ?store = "[''S1'' \<mapsto> ?sg]"
  have h: "?store ''S1'' = Some ?sg" by simp
  note t = compensations_per_failing_call[where store="?store" and sid="''S1''", OF h,
              of never_fails CHARGE_PAYMENT None empty_bus]
  from t have b: "attempted (snd (run_advances (bus_transport never_fails) ?store
        [(''S1'', CHARGE_PAYMENT, False, None), (''S1'', CHARGE_PAYMENT, False, None)] empty_bus))
     = attempted empty_bus @ spec_compensations ?sg @ spec_compensations ?sg"
    by (rule conjunct2[THEN conjunct2, THEN conjunct2, THEN conjunct2])
  have c: "spec_compensations ?sg
     = [(''inventory.release'', [(''order_id'', PyStr ''O1''), (''items'', PyList [''sku-A''])])]"
    by (simp add: spec_compensations_def spec_event_of_cases)
  show ?thesis
    apply (rule conjI[OF h])
    apply (simp only: b)
    apply (simp add: c empty_bus_def)
    done
qed

subsection \<open>The status after compensation\<close>

text \<open>
  Claim C2 as stated fails: \<open>advance_saga\<close> never reads the status. The saga of
  order \<open>O1\<close> is \<open>COMPENSATED\<close> after a failed \<open>charge_payment\<close>; a later
  call reporting success for \<open>charge_payment\<close> sets it to \<open>RUNNING\<close>, and one
  more for \<open>confirm_order\<close> sets it to \<open>COMPLETED\<close>.
\<close>

theorem compensated_saga_returns_to_running_counterexample:
  "get_saga (fst (run_advances (bus_transport never_fails) store_O1
     [(''S1'', RESERVE_INVENTORY, True, None), (''S1'', CHARGE_PAYMENT, False, None)] empty_bus)) ''S1''
   = Some \<lparr> saga_id = ''S1'', order_id = ''O1'', user_id = 1, items = [''sku-A''],
            status = COMPENSATED,
            steps = [\<lparr> step = RESERVE_INVENTORY, success = True, payload = [] \<rparr>,
                     \<lparr> step = CHARGE_PAYMENT, success = False, payload = [] \<rparr>],
            compensations = [] \<rparr>
   \<and> get_saga (fst (run_advances (bus_transport never_fails) store_O1
     [(''S1'', RESERVE_INVENTORY, True, None), (''S1'', CHARGE_PAYMENT, False, None),
      (''S1'', CHARGE_PAYMENT, True, None)] empty_bus)) ''S1''
   = Some \<lparr> saga_id = ''S1'', order_id = ''O1'', user_id = 1, items = [''sku-A''],
            status = RUNNING,
            steps = [\<lparr> step = RESERVE_INVENTORY, success = True, payload = [] \<rparr>,
                     \<lparr> step = CHARGE_PAYMENT, success = False, payload = [] \<rparr>,
                     \<lparr> step = CHARGE_PAYMENT, success = True, payload = [] \<rparr>],
            compensations = [] \<rparr>
   \<and> get_saga (fst (run_advances (bus_transport never_fails) store_O1
     [(''S1'', RESERVE_INVENTORY, True, None), (''S1'', CHARGE_PAYMENT, False, None),
      (''S1'', CHARGE_PAYMENT, True, None), (''S1'', CONFIRM_ORDER, True, None)] empty_bus)) ''S1''
   = Some \<lparr> saga_id = ''S1'', order_id = ''O1'', user_id = 1, items = [''sku-A''],
            status = COMPLETED,
            steps = [\<lparr> step = RESERVE_INVENTORY, success = True, payload = [] \<rparr>,
                     \<lparr> step = CHARGE_PAYMENT, success = False, payload = [] \<rparr>,
                     \<lparr> step = CHARGE_PAYMENT, success = True, payload = [] \<rparr>,
                     \<lparr> step = CONFIRM_ORDER, success = True, payload = [] \<rparr>],
            compensations = [] \<rparr>"
  apply (rule conjI[OF scenario_O1_saga])
  apply (rule conjI[OF scenario_back_to_running])
  apply (rule scenario_back_to_completed)
  done

text \<open>
  Claim C2 as amended. For a stored saga whose status is \<open>COMPENSATING\<close> or
  \<open>COMPENSATED\<close>, a call of \<open>advance_saga\<close> reporting failure leaves the status
  \<open>COMPENSATED\<close>; a call reporting success appends the step and sets the status by
  the rule of completed steps, to \<open>COMPLETED\<close> or \<open>RUNNING\<close>.
\<close>

theorem status_after_advance_on_compensated_saga:
  assumes "store sid = Some sg" and "status sg = COMPENSATING \<or> status sg = COMPENSATED"
  shows "(\<exists>sg'. get_saga (fst (advance_saga tr store sid st False pl w)) sid = Some sg'
            \<and> status sg' = COMPENSATED)
     \<and> (\<exists>sg'. get_saga (fst (advance_saga tr store sid st True pl w)) sid = Some sg'
            \<and> steps sg' = steps sg @
               [\<lparr> step = st, success = True,
                  payload = (case pl of None \<Rightarrow> [] | Some p \<Rightarrow> p) \<rparr>]
            \<and> status sg' =
               (if {RESERVE_INVENTORY, CHARGE_PAYMENT, CONFIRM_ORDER}
                     \<subseteq> {step r | r. r \<in> set (steps sg') \<and> success r}
                then COMPLETED else RUNNING))"
proof
  show "\<exists>sg'. get_saga (fst (advance_saga tr store sid st False pl w)) sid = Some sg'
            \<and> status sg' = COMPENSATED"
    by (simp add: advance_saga_failed_stored[where store=store and sid=sid, OF assms(1)])
  from advance_saga_success_status[where store=store and sid=sid, OF assms(1), of tr st pl w]
  show "\<exists>sg'. get_saga (fst (advance_saga tr store sid st True pl w)) sid = Some sg'
            \<and> steps sg' = steps sg @
               [\<lparr> step = st, success = True,
                  payload = (case pl of None \<Rightarrow> [] | Some p \<Rightarrow> p) \<rparr>]
            \<and> status sg' =
               (if {RESERVE_INVENTORY, CHARGE_PAYMENT, CONFIRM_ORDER}
                     \<subseteq> {step r | r. r \<in> set (steps sg') \<and> success r}
                then COMPLETED else RUNNING)"
    by blast
qed

theorem status_after_advance_on_compensated_saga_witness:
  "[''S1'' \<mapsto> \<lparr> saga_id = ''S1'', order_id = ''O1'', user_id = 1, items = [''sku-A''],
            status = COMPENSATED,
            steps = [\<lparr> step = RESERVE_INVENTORY, success = True, payload = [] \<rparr>,
                     \<lparr> step = CHARGE_PAYMENT, success = False, payload = [] \<rparr>],
            compensations = [] \<rparr>] ''S1''
     = Some \<lparr> saga_id = ''S1'', order_id = ''O1'', user_id = 1, items = [''sku-A''],
            status = COMPENSATED,
            steps = [\<lparr> step = RESERVE_INVENTORY, success = True, payload = [] \<rparr>,
                     \<lparr> step = CHARGE_PAYMENT, success = False, payload = [] \<rparr>],
            compensations = [] \<rparr>
   \<and> (\<exists>sg'. get_saga (fst (advance_saga (bus_transport never_fails)
          [''S1'' \<mapsto> \<lparr> saga_id = ''S1'', order_id = ''O1'', user_id = 1, items = [''sku-A''],
            status = COMPENSATED,
            steps = [\<lparr> step = RESERVE_INVENTORY, success = True, payload = [] \<rparr>,
                     \<lparr> step = CHARGE_PAYMENT, success = False, payload = [] \<rparr>],
            compensations = [] \<rparr>]
          ''S1'' CHARGE_PAYMENT False None empty_bus)) ''S1'' = Some sg'
        \<and> status sg' = COMPENSATED)
   \<and> (\<exists>sg'. get_saga (fst (advance_saga (bus_transport never_fails)
          [''S1'' \<mapsto> \<lparr> saga_id = ''S1'', order_id = ''O1'', user_id = 1, items = [''sku-A''],
            status = COMPENSATED,
            steps = [\<lparr> step = RESERVE_INVENTORY, success = True, payload = [] \<rparr>,
                     \<lparr> step = CHARGE_PAYMENT, success = False, payload = [] \<rparr>],
            compensations = [] \<rparr>]
          ''S1'' CHARGE_PAYMENT True None empty_bus)) ''S1'' = Some sg'
        \<and> status sg' = RUNNING)"
proof -
  let ?sg = "\<lparr> saga_id = ''S1'', order_id = ''O1'', user_id = 1, items = [''sku-A''],
            status = COMPENSATED,
            steps = [\<lparr> step = RESERVE_INVENTORY, success = True, payload = [] \<rparr>,
                     \<lparr> step = CHARGE_PAYMENT, success = False, payload = [] \<rparr>],
            compensations = [] \<rparr> :: string saga"
  let ?store = "[''S1'' \<mapsto> ?sg]"
  have h1: "?store ''S1'' = Some ?sg" by simp
  have h2: "status ?sg = COMPENSATING \<or> status ?sg = COMPENSATED" by simp
  note t = status_after_advance_on_compensated_saga[where store="?store" and sid="''S1''", OF h1 h2,
              of "bus_transport never_fails" CHARGE_PAYMENT None empty_bus]
  from t have a: "\<exists>sg'. get_saga (fst (advance_saga (bus_transport never_fails) ?store
          ''S1'' CHARGE_PAYMENT False None empty_bus)) ''S1'' = Some sg' \<and> status sg' = COMPENSATED"
    by (rule conjunct1)
  from t obtain sg' where g: "get_saga (fst (advance_saga (bus_transport never_fails) ?store
          ''S1'' CHARGE_PAYMENT True None empty_bus)) ''S1'' = Some sg'"
    and stp: "steps sg' = steps ?sg @ [\<lparr> step = CHARGE_PAYMENT, success = True,
                  payload = (case None of None \<Rightarrow> [] | Some p \<Rightarrow> p) \<rparr>]"
    and sts: "status sg' =
               (if {RESERVE_INVENTORY, CHARGE_PAYMENT, CONFIRM_ORDER}
                     \<subseteq> {step r | r. r \<in> set (steps sg') \<and> success r}
                then COMPLETED else RUNNING)"
    by blast
  have "CONFIRM_ORDER \<notin> {step r | r. r \<in> set (steps sg') \<and> success r}"
    unfolding stp by auto
  with sts have "status sg' = RUNNING" by auto
  with g have b: "\<exists>sg'. get_saga (fst (advance_saga (bus_transport never_fails) ?store
          ''S1'' CHARGE_PAYMENT True None empty_bus)) ''S1'' = Some sg' \<and> status sg' = RUNNING"
    by blast
  from h1 a b show ?thesis by (intro conjI)
qed

subsection \<open>Completion\<close>

text \<open>
  Claim C6. A call of \<open>advance_saga\<close> with success on a stored saga publishes
  nothing, appends the step, and sets the status to \<open>COMPLETED\<close> if the names of the
  steps recorded with success, the new one included, contain the three required
  steps, and to \<open>RUNNING\<close> otherwise. After \<open>create_saga\<close>, three successful
  calls whose steps cover the three required steps, in any order, end with status
  \<open>COMPLETED\<close>.
\<close>

theorem completed_iff_all_steps_succeeded:
  assumes "store sid = Some sg"
  shows "(\<exists>sg'. get_saga (fst (advance_saga tr store sid st True pl w)) sid = Some sg'
           \<and> snd (advance_saga tr store sid st True pl w) = w
           \<and> steps sg' = steps sg @
               [\<lparr> step = st, success = True,
                  payload = (case pl of None \<Rightarrow> [] | Some p \<Rightarrow> p) \<rparr>]
           \<and> status sg' =
               (if {RESERVE_INVENTORY, CHARGE_PAYMENT, CONFIRM_ORDER}
                     \<subseteq> {step r | r. r \<in> set (steps sg') \<and> success r}
                then COMPLETED else RUNNING))
     \<and> ({RESERVE_INVENTORY, CHARGE_PAYMENT, CONFIRM_ORDER} \<subseteq> {sa, sb, sc} \<longrightarrow>
          (\<exists>sg'. get_saga (fst (run_advances tr' (snd (create_saga store' sid' oid uid its))
                     [(sid', sa, True, pa), (sid', sb, True, pb), (sid', sc, True, pc)] w')) sid'
                   = Some sg'
                \<and> status sg' = COMPLETED))"
proof
  show "\<exists>sg'. get_saga (fst (advance_saga tr store sid st True pl w)) sid = Some sg'
           \<and> snd (advance_saga tr store sid st True pl w) = w
           \<and> steps sg' = steps sg @
               [\<lparr> step = st, success = True,
                  payload = (case pl of None \<Rightarrow> [] | Some p \<Rightarrow> p) \<rparr>]
           \<and> status sg' =
               (if {RESERVE_INVENTORY, CHARGE_PAYMENT, CONFIRM_ORDER}
                     \<subseteq> {step r | r. r \<in> set (steps sg') \<and> success r}
                then COMPLETED else RUNNING)"
    by (rule advance_saga_success_status[where store=store and sid=sid, OF assms])
  show "{RESERVE_INVENTORY, CHARGE_PAYMENT, CONFIRM_ORDER} \<subseteq> {sa, sb, sc} \<longrightarrow>
          (\<exists>sg'. get_saga (fst (run_advances tr' (snd (create_saga store' sid' oid uid its))
                     [(sid', sa, True, pa), (sid', sb, True, pb), (sid', sc, True, pc)] w')) sid'
                   = Some sg'
                \<and> status sg' = COMPLETED)"
    by (rule impI, rule three_successes_completed)
qed

theorem completed_iff_all_steps_succeeded_witness:
  "store_O1 ''S1'' = Some \<lparr> saga_id = ''S1'', order_id = ''O1'', user_id = 1, items = [''sku-A''],
            status = PENDING, steps = [], compensations = [] \<rparr>
   \<and> {RESERVE_INVENTORY, CHARGE_PAYMENT, CONFIRM_ORDER}
        \<subseteq> {RESERVE_INVENTORY, CHARGE_PAYMENT, CONFIRM_ORDER}
   \<and> (\<exists>sg'. get_saga (fst (advance_saga (bus_transport never_fails) store_O1 ''S1''
                 RESERVE_INVENTORY True None empty_bus)) ''S1'' = Some sg'
          \<and> status sg' = RUNNING)
   \<and> (\<exists>sg'. get_saga (fst (run_advances (bus_transport never_fails) store_O1
                 [(''S1'', RESERVE_INVENTORY, True, None), (''S1'', CHARGE_PAYMENT, True, None),
                  (''S1'', CONFIRM_ORDER, True, None)] empty_bus)) ''S1'' = Some sg'
          \<and> status sg' = COMPLETED)"
proof -
  let ?sg = "\<lparr> saga_id = ''S1'', order_id = ''O1'', user_id = 1, items = [''sku-A''],
            status = PENDING, steps = [], compensations = [] \<rparr> :: string saga"
  have h1: "store_O1 ''S1'' = Some ?sg" by (simp add: store_O1_def create_saga_def)
  have h2: "{RESERVE_INVENTORY, CHARGE_PAYMENT, CONFIRM_ORDER}
        \<subseteq> {RESERVE_INVENTORY, CHARGE_PAYMENT, CONFIRM_ORDER}" by (rule subset_refl)
  note t = completed_iff_all_steps_succeeded[where store=store_O1 and sid="''S1''" and store'=Map.empty and sid'="''S1''"
                and sa=RESERVE_INVENTORY and sb=CHARGE_PAYMENT and sc=CONFIRM_ORDER
                and oid="''O1''" and uid=1 and its="[''sku-A'']"
                and pa=None and pb=None and pc=None and tr'="bus_transport never_fails"
                and w'=empty_bus,
              OF h1, of "bus_transport never_fails" RESERVE_INVENTORY None empty_bus]
  from t obtain sg' where g: "get_saga (fst (advance_saga (bus_transport never_fails) store_O1 ''S1''
                 RESERVE_INVENTORY True None empty_bus)) ''S1'' = Some sg'"
    and stp: "steps sg' = steps ?sg @ [\<lparr> step = RESERVE_INVENTORY, success = True,
                  payload = (case None of None \<Rightarrow> [] | Some p \<Rightarrow> p) \<rparr>]"
    and sts: "status sg' =
               (if {RESERVE_INVENTORY, CHARGE_PAYMENT, CONFIRM_ORDER}
                     \<subseteq> {step r | r. r \<in> set (steps sg') \<and> success r}
                then COMPLETED else RUNNING)"
    by blast
  have "CONFIRM_ORDER \<notin> {step r | r. r \<in> set (steps sg') \<and> success r}"
    unfolding stp by auto
  with sts have "status sg' = RUNNING" by auto
  with g have a: "\<exists>sg'. get_saga (fst (advance_saga (bus_transport never_fails) store_O1 ''S1''
                 RESERVE_INVENTORY True None empty_bus)) ''S1'' = Some sg' \<and> status sg' = RUNNING"
    by blast
  from t h2 have b: "\<exists>sg'. get_saga (fst (run_advances (bus_transport never_fails)
                 (snd (create_saga Map.empty ''S1'' ''O1'' 1 [''sku-A'']))
                 [(''S1'', RESERVE_INVENTORY, True, None), (''S1'', CHARGE_PAYMENT, True, None),
                  (''S1'', CONFIRM_ORDER, True, None)] empty_bus)) ''S1'' = Some sg'
          \<and> status sg' = COMPLETED"
    by (rule conjunct2[THEN mp])
  from h1 h2 a b[folded store_O1_def] show ?thesis by (intro conjI)
qed

subsection \<open>What \<open>advance_saga\<close> leaves alone\<close>

text \<open>
  Claim C10. Through any series of \<open>advance_saga\<close> calls, on any sagas and with any
  transport, a stored saga stays stored and differs from what it was at most in
  \<open>status\<close> and \<open>steps\<close>; an identifier that is not in the store is not added.
  So after \<open>create_saga\<close> the fields \<open>saga_id\<close>, \<open>order_id\<close>, \<open>user_id\<close>
  and \<open>items\<close> are as created and \<open>compensations\<close> is empty.
\<close>

theorem advance_changes_only_status_and_steps:
  "(store sid = Some sg \<longrightarrow>
      (\<exists>sg'. get_saga (fst (run_advances tr store cs w)) sid = Some sg'
          \<and> sg' = sg\<lparr> status := status sg', steps := steps sg' \<rparr>))
   \<and> (store sid = None \<longrightarrow> get_saga (fst (run_advances tr store cs w)) sid = None)
   \<and> (\<exists>sg'. get_saga (fst (run_advances tr (snd (create_saga store sid oid uid its)) cs w)) sid
                = Some sg'
          \<and> saga_id sg' = sid \<and> order_id sg' = oid \<and> user_id sg' = uid \<and> items sg' = its
          \<and> compensations sg' = [])"
proof (intro conjI impI)
  assume "store sid = Some sg"
  from run_advances_frame[where store=store and sid=sid, OF this, of tr cs w]
  show "\<exists>sg'. get_saga (fst (run_advances tr store cs w)) sid = Some sg'
          \<and> sg' = sg\<lparr> status := status sg', steps := steps sg' \<rparr>"
    by (simp add: get_saga_def)
next
  assume "store sid = None"
  from run_advances_absent[where store=store and sid=sid, OF this, of tr cs w]
  show "get_saga (fst (run_advances tr store cs w)) sid = None" by (simp add: get_saga_def)
next
  let ?sg0 = "\<lparr> saga_id = sid, order_id = oid, user_id = uid, items = its,
                 status = PENDING, steps = [], compensations = [] \<rparr>"
  have "snd (create_saga store sid oid uid its) sid = Some ?sg0" by (simp add: create_saga_def)
  from run_advances_frame[where store="snd (create_saga store sid oid uid its)" and sid=sid,
         OF this, of tr cs w]
  obtain sg' where g: "fst (run_advances tr (snd (create_saga store sid oid uid its)) cs w) sid = Some sg'"
    and f: "sg' = ?sg0\<lparr> status := status sg', steps := steps sg' \<rparr>" by blast
  have "saga_id sg' = sid \<and> order_id sg' = oid \<and> user_id sg' = uid \<and> items sg' = its
          \<and> compensations sg' = []"
    by (subst f, simp)+
  with g show "\<exists>sg'. get_saga (fst (run_advances tr (snd (create_saga store sid oid uid its)) cs w)) sid
                = Some sg'
          \<and> saga_id sg' = sid \<and> order_id sg' = oid \<and> user_id sg' = uid \<and> items sg' = its
          \<and> compensations sg' = []"
    by (simp add: get_saga_def)
qed


theorem advance_changes_only_status_and_steps_witness:
  "store_O1 ''S1'' = Some \<lparr> saga_id = ''S1'', order_id = ''O1'', user_id = 1, items = [''sku-A''],
            status = PENDING, steps = [], compensations = [] \<rparr>
   \<and> (\<exists>sg'. get_saga (fst (run_advances (bus_transport never_fails) store_O1
                 [(''S1'', RESERVE_INVENTORY, True, None), (''S1'', CHARGE_PAYMENT, False, None)]
                 empty_bus)) ''S1'' = Some sg'
          \<and> sg' = \<lparr> saga_id = ''S1'', order_id = ''O1'', user_id = 1, items = [''sku-A''],
                     status = status sg', steps = steps sg', compensations = [] \<rparr>)
   \<and> store_O1 ''S2'' = None
   \<and> get_saga (fst (run_advances (bus_transport never_fails) store_O1
                 [(''S1'', RESERVE_INVENTORY, True, None), (''S2'', CHARGE_PAYMENT, False, None)]
                 empty_bus)) ''S2'' = None"
proof -
  let ?sg = "\<lparr> saga_id = ''S1'', order_id = ''O1'', user_id = 1, items = [''sku-A''],
            status = PENDING, steps = [], compensations = [] \<rparr> :: string saga"
  have h1: "store_O1 ''S1'' = Some ?sg" by (simp add: store_O1_def create_saga_def)
  have h2: "store_O1 ''S2'' = None" by (simp add: store_O1_def create_saga_def)
  from advance_changes_only_status_and_steps[where store=store_O1 and sid="''S1''" and sg="?sg" and tr="bus_transport never_fails"
             and cs="[(''S1'', RESERVE_INVENTORY, True, None), (''S1'', CHARGE_PAYMENT, False, None)]"
             and w=empty_bus] h1
  have a: "\<exists>sg'. get_saga (fst (run_advances (bus_transport never_fails) store_O1
                 [(''S1'', RESERVE_INVENTORY, True, None), (''S1'', CHARGE_PAYMENT, False, None)]
                 empty_bus)) ''S1'' = Some sg'
          \<and> sg' = ?sg\<lparr> status := status sg', steps := steps sg' \<rparr>"
    by (rule conjunct1[THEN mp])
  from advance_changes_only_status_and_steps[where store=store_O1 and sid="''S2''" and tr="bus_transport never_fails"
             and cs="[(''S1'', RESERVE_INVENTORY, True, None), (''S2'', CHARGE_PAYMENT, False, None)]"
             and w=empty_bus] h2
  have b: "get_saga (fst (run_advances (bus_transport never_fails) store_O1
                 [(''S1'', RESERVE_INVENTORY, True, None), (''S2'', CHARGE_PAYMENT, False, None)]
                 empty_bus)) ''S2'' = None"
    by (rule conjunct2[THEN conjunct1, THEN mp])
  from a have a': "\<exists>sg'. get_saga (fst (run_advances (bus_transport never_fails) store_O1
                 [(''S1'', RESERVE_INVENTORY, True, None), (''S1'', CHARGE_PAYMENT, False, None)]
                 empty_bus)) ''S1'' = Some sg'
          \<and> sg' = \<lparr> saga_id = ''S1'', order_id = ''O1'', user_id = 1, items = [''sku-A''],
                     status = status sg', steps = steps sg', compensations = [] \<rparr>"
    by simp
  from h1 a' h2 b show ?thesis by (intro conjI)
qed


end
